theory Spec2Isabelle
  imports Complex_Main "HOL-Library.Word"
begin

section \<open>JavaScript strings\<close>

text \<open>
  A JavaScript string is a sequence of UTF-16 code units, and a regular expression without
  the \<^verbatim>\<open>u\<close> flag (every expression of \<^verbatim>\<open>agent-client.js\<close>) matches code unit by code unit.
  So a string is a list of 16-bit words; \<open>js\<close> reads an ASCII literal as such a list.
\<close>

type_synonym jschar = "16 word"
type_synonym jsstring = "jschar list"

definition js :: "string \<Rightarrow> jsstring" where
  "js s = map of_char s"

text \<open>The character classes of ECMAScript that the source uses.\<close>

definition isLineTerminator :: "jschar \<Rightarrow> bool" where
  \<comment> \<open>LF, CR, LS, PS: what \<^verbatim>\<open>.\<close> refuses and what \<^verbatim>\<open>^\<close> and \<^verbatim>\<open>$\<close> look at under the \<^verbatim>\<open>m\<close> flag\<close>
  "isLineTerminator c \<longleftrightarrow> c = 0x0A \<or> c = 0x0D \<or> c = 0x2028 \<or> c = 0x2029"

definition isWhiteSpace :: "jschar \<Rightarrow> bool" where
  \<comment> \<open>\<^verbatim>\<open>\s\<close> and the characters \<^verbatim>\<open>String.prototype.trim\<close> strips: WhiteSpace and LineTerminator\<close>
  "isWhiteSpace c \<longleftrightarrow>
     c = 0x09 \<or> c = 0x0A \<or> c = 0x0B \<or> c = 0x0C \<or> c = 0x0D \<or> c = 0x20 \<or> c = 0xA0 \<or>
     c = 0x1680 \<or> (0x2000 \<le> c \<and> c \<le> 0x200A) \<or> c = 0x2028 \<or> c = 0x2029 \<or>
     c = 0x202F \<or> c = 0x205F \<or> c = 0x3000 \<or> c = 0xFEFF"

definition isDigit :: "jschar \<Rightarrow> bool" where
  \<comment> \<open>\<^verbatim>\<open>\d\<close>\<close>
  "isDigit c \<longleftrightarrow> 0x30 \<le> c \<and> c \<le> 0x39"

definition isWordChar :: "jschar \<Rightarrow> bool" where
  \<comment> \<open>\<^verbatim>\<open>\w\<close>: \<^verbatim>\<open>[A-Za-z0-9_]\<close>\<close>
  "isWordChar c \<longleftrightarrow>
     (0x41 \<le> c \<and> c \<le> 0x5A) \<or> (0x61 \<le> c \<and> c \<le> 0x7A) \<or> isDigit c \<or> c = 0x5F"

definition notLineTerminator :: "jschar \<Rightarrow> bool" where
  \<comment> \<open>\<^verbatim>\<open>.\<close>\<close>
  "notLineTerminator c \<longleftrightarrow> \<not> isLineTerminator c"

definition anyChar :: "jschar \<Rightarrow> bool" where
  \<comment> \<open>\<^verbatim>\<open>[\s\S]\<close>\<close>
  "anyChar c \<longleftrightarrow> True"

definition notBacktick :: "jschar \<Rightarrow> bool" where
  \<comment> \<open>\<^verbatim>\<open>[^`]\<close>\<close>
  "notBacktick c \<longleftrightarrow> c \<noteq> 0x60"

definition trim :: "jsstring \<Rightarrow> jsstring" where
  \<comment> \<open>\<^verbatim>\<open>String.prototype.trim\<close>\<close>
  "trim s = rev (dropWhile isWhiteSpace (rev (dropWhile isWhiteSpace s)))"

fun startsWith :: "jsstring \<Rightarrow> jsstring \<Rightarrow> bool" where
  "startsWith s [] = True"
| "startsWith [] (p # ps) = False"
| "startsWith (c # cs) (p # ps) = (c = p \<and> startsWith cs ps)"

fun includesStr :: "jsstring \<Rightarrow> jsstring \<Rightarrow> bool" where
  \<comment> \<open>\<^verbatim>\<open>String.prototype.includes\<close>\<close>
  "includesStr [] p = startsWith [] p"
| "includesStr (c # cs) p = (startsWith (c # cs) p \<or> includesStr cs p)"

section \<open>Global replacement\<close>

text \<open>
  \<^verbatim>\<open>String.prototype.replace\<close> with a \<^verbatim>\<open>g\<close> expression scans the string from the left. At
  each position the expression is tried; a match is replaced and the scan goes on behind
  it; where nothing matches, the code unit is copied and the scan moves one to the right.

  A matcher is one expression tried at one position: it sees the code unit before the
  position (\<open>None\<close> at the start of the string; \<^verbatim>\<open>^\<close> needs it) and the rest of the
  string, and answers the length of the match with its capture groups (\<open>None\<close> for a group
  that took no part). A replacement gets the matched text (\<^verbatim>\<open>$&\<close>) and the groups.
\<close>

type_synonym captures = "jsstring option list"
type_synonym matcher = "jschar option \<Rightarrow> jsstring \<Rightarrow> (nat \<times> captures) option"
type_synonym replacement = "jsstring \<Rightarrow> captures \<Rightarrow> jsstring"

definition group :: "captures \<Rightarrow> nat \<Rightarrow> jsstring option" where
  \<comment> \<open>capture group \<open>i\<close>, counted from 1 as \<^verbatim>\<open>$1\<close>, \<^verbatim>\<open>$2\<close> are\<close>
  "group gs i = (if 0 < i \<and> i \<le> length gs then gs ! (i - 1) else None)"

definition subst :: "captures \<Rightarrow> nat \<Rightarrow> jsstring" where
  \<comment> \<open>\<^verbatim>\<open>$i\<close> in a replacement string: a group that took no part gives the empty string\<close>
  "subst gs i = (case group gs i of None \<Rightarrow> [] | Some g \<Rightarrow> g)"

function replaceAll :: "matcher \<Rightarrow> replacement \<Rightarrow> jschar option \<Rightarrow> jsstring \<Rightarrow> jsstring" where
  "replaceAll m r prev [] =
     (case m prev [] of None \<Rightarrow> [] | Some (n, gs) \<Rightarrow> r [] gs)"
| "replaceAll m r prev (c # cs) =
     (case m prev (c # cs) of
        None \<Rightarrow> c # replaceAll m r (Some c) cs
      | Some (n, gs) \<Rightarrow>
          if n = 0 then r [] gs @ c # replaceAll m r (Some c) cs
          else r (take n (c # cs)) gs
               @ replaceAll m r (Some (last (take n (c # cs)))) (drop n (c # cs)))"
  by pat_completeness auto
termination
  by (relation "measure (\<lambda>(m, r, prev, s). length s)") auto

definition replace :: "matcher \<Rightarrow> replacement \<Rightarrow> jsstring \<Rightarrow> jsstring" where
  "replace m r s = replaceAll m r None s"

section \<open>The expressions of \<^verbatim>\<open>formatResponse\<close>\<close>

text \<open>
  Each expression is written as the deterministic matcher its backtracking search amounts
  to, at one position.
  \<^item> A greedy run of a character class that is followed by a character outside the class
    (\<^verbatim>\<open>\w+\<close> before \<^verbatim>\<open>\n\<close>, \<^verbatim>\<open>[^`]+\<close> before a backtick, \<^verbatim>\<open>\d+\<close> before \<^verbatim>\<open>\.\<close>, \<^verbatim>\<open>\s*\<close> before
    \<^verbatim>\<open><\<close>, \<^verbatim>\<open>.+\<close> before \<^verbatim>\<open>$\<close>) can only succeed at its full length: any shorter run leaves
    a character of the class where the next one is wanted. So it is \<open>takeWhile\<close>.
  \<^item> A lazy run before a delimiter (\<^verbatim>\<open>[\s\S]*?\<close> before the closing fence, \<^verbatim>\<open>.+?\<close> before
    the closing asterisks) tries the delimiter first and takes one more character when it
    is not there: it stops at the first place where the delimiter follows (\<open>lazyUntil\<close>).
  \<^item> A greedy run before a delimiter (\<^verbatim>\<open>.*\<close> before \<^verbatim>\<open></li>\<close>) takes one more character
    first and tries the delimiter where that fails. What stands behind it in the
    expression (\<^verbatim>\<open>\n?\<close> and further rounds of the group) cannot fail, so the search never
    comes back: it stops at the last place of the line where the delimiter follows
    (\<open>greedyUntil\<close>).
\<close>

fun lazyUntil :: "(jschar \<Rightarrow> bool) \<Rightarrow> jsstring \<Rightarrow> jsstring \<Rightarrow> jsstring option" where
  "lazyUntil ok d [] = (if startsWith [] d then Some [] else None)"
| "lazyUntil ok d (c # cs) =
     (if startsWith (c # cs) d then Some []
      else if ok c then map_option ((#) c) (lazyUntil ok d cs)
      else None)"

fun greedyUntil :: "(jschar \<Rightarrow> bool) \<Rightarrow> jsstring \<Rightarrow> jsstring \<Rightarrow> jsstring option" where
  "greedyUntil ok d [] = (if startsWith [] d then Some [] else None)"
| "greedyUntil ok d (c # cs) =
     (case (if ok c then greedyUntil ok d cs else None) of
        Some body \<Rightarrow> Some (c # body)
      | None \<Rightarrow> if startsWith (c # cs) d then Some [] else None)"

definition atLineStart :: "jschar option \<Rightarrow> bool" where
  \<comment> \<open>\<^verbatim>\<open>^\<close> under the \<^verbatim>\<open>m\<close> flag\<close>
  "atLineStart prev = (case prev of None \<Rightarrow> True | Some p \<Rightarrow> isLineTerminator p)"

definition literalRe :: "jsstring \<Rightarrow> matcher" where
  \<comment> \<open>\<^verbatim>\<open>/&/\<close>, \<^verbatim>\<open>/</\<close>, \<^verbatim>\<open>/>/\<close>, \<^verbatim>\<open>/\n\n/\<close>, \<^verbatim>\<open>/\n/\<close>\<close>
  "literalRe p prev s = (if startsWith s p then Some (length p, []) else None)"

definition codeBlockRe :: matcher where
  \<comment> \<open>\<^verbatim>\<open>/```(\w+)?\n([\s\S]*?)```/\<close>\<close>
  "codeBlockRe prev s =
     (if startsWith s (js ''```'') then
        let lang = takeWhile isWordChar (drop 3 s);
            s1 = drop (3 + length lang) s
        in if startsWith s1 (js ''\<newline>'') then
             (case lazyUntil anyChar (js ''```'') (drop 1 s1) of
                Some code \<Rightarrow>
                  Some (3 + length lang + 1 + length code + 3,
                        [if lang = [] then None else Some lang, Some code])
              | None \<Rightarrow> None)
           else None
      else None)"

definition inlineCodeRe :: matcher where
  \<comment> \<open>\<^verbatim>\<open>/`([^`]+)`/\<close>\<close>
  "inlineCodeRe prev s =
     (if startsWith s (js ''`'') then
        let body = takeWhile notBacktick (drop 1 s)
        in if body \<noteq> [] \<and> startsWith (drop (1 + length body) s) (js ''`'')
           then Some (1 + length body + 1, [Some body])
           else None
      else None)"

definition lineRe :: "jsstring \<Rightarrow> matcher" where
  \<comment> \<open>\<^verbatim>\<open>/^### (.+)$/m\<close>, \<^verbatim>\<open>/^## (.+)$/m\<close>, \<^verbatim>\<open>/^# (.+)$/m\<close>, \<^verbatim>\<open>/^- (.+)$/m\<close>, by the marker\<close>
  "lineRe marker prev s =
     (if atLineStart prev \<and> startsWith s marker then
        let body = takeWhile notLineTerminator (drop (length marker) s)
        in if body \<noteq> [] then Some (length marker + length body, [Some body]) else None
      else None)"

definition numberedRe :: matcher where
  \<comment> \<open>\<^verbatim>\<open>/^(\d+)\. (.+)$/m\<close>\<close>
  "numberedRe prev s =
     (if atLineStart prev then
        let num = takeWhile isDigit s;
            s1 = drop (length num) s
        in if num \<noteq> [] \<and> startsWith s1 (js ''. '') then
             let body = takeWhile notLineTerminator (drop 2 s1)
             in if body \<noteq> [] then Some (length num + 2 + length body, [Some num, Some body])
                else None
           else None
      else None)"

definition listItem :: "jsstring \<Rightarrow> (nat \<times> jsstring) option" where
  \<comment> \<open>one round of the group \<^verbatim>\<open>(<li>.*<\/li>\n?)\<close>: its length and its text\<close>
  "listItem s =
     (if startsWith s (js ''<li>'') then
        (case greedyUntil notLineTerminator (js ''</li>'') (drop 4 s) of
           Some body \<Rightarrow>
             let n = 4 + length body + 5;
                 n' = (if startsWith (drop n s) (js ''\<newline>'') then n + 1 else n)
             in Some (n', take n' s)
         | None \<Rightarrow> None)
      else None)"

function listItems :: "jsstring \<Rightarrow> (nat \<times> jsstring) option" where
  \<comment> \<open>the rounds of \<^verbatim>\<open>(...)+\<close> from one position, as many as there are: their total length
     and the text of the last one (a round is never empty: the test on \<open>n\<close> only makes the
     recursion well founded)\<close>
  "listItems s =
     (case listItem s of
        None \<Rightarrow> None
      | Some (n, item) \<Rightarrow>
          if n = 0 then Some (n, item)
          else (case listItems (drop n s) of
                  None \<Rightarrow> Some (n, item)
                | Some (k, item') \<Rightarrow> Some (n + k, item')))"
  by pat_completeness auto
termination
proof (relation "measure length")
  fix s :: jsstring and x n item
  assume item: "listItem s = Some x" "(n, item) = x" and n: "n \<noteq> 0"
  from item have "startsWith s (js ''<li>'')"
    by (simp add: listItem_def split: if_splits)
  then have "s \<noteq> []"
    by (cases s) (simp_all add: js_def)
  with n show "(drop n s, s) \<in> measure length"
    by simp
qed simp

declare listItems.simps [simp del]

definition listRunRe :: matcher where
  \<comment> \<open>\<^verbatim>\<open>/(<li>.*<\/li>\n?)+/\<close>\<close>
  "listRunRe prev s =
     (case listItems s of None \<Rightarrow> None | Some (n, item) \<Rightarrow> Some (n, [Some item]))"

definition emphasisRe :: "jsstring \<Rightarrow> matcher" where
  \<comment> \<open>\<^verbatim>\<open>/\*\*(.+?)\*\*/\<close> and \<^verbatim>\<open>/\*(.+?)\*/\<close>, by the delimiter\<close>
  "emphasisRe d prev s =
     (if startsWith s d then
        (case drop (length d) s of
           [] \<Rightarrow> None
         | c # s1 \<Rightarrow>
             if notLineTerminator c then
               (case lazyUntil notLineTerminator d s1 of
                  Some more \<Rightarrow>
                    Some (length d + 1 + length more + length d, [Some (c # more)])
                | None \<Rightarrow> None)
             else None)
      else None)"

definition spacedRe :: "jsstring \<Rightarrow> jsstring \<Rightarrow> matcher" where
  \<comment> \<open>\<^verbatim>\<open>/<p>\s*<\/p>/\<close>, \<^verbatim>\<open>/<p>\s*<ul>/\<close>, \<^verbatim>\<open>/<\/ul>\s*<\/p>/\<close>, by the two tags\<close>
  "spacedRe a b prev s =
     (if startsWith s a then
        let ws = takeWhile isWhiteSpace (drop (length a) s)
        in if startsWith (drop (length a + length ws) s) b
           then Some (length a + length ws + length b, [])
           else None
      else None)"

section \<open>\<^verbatim>\<open>formatResponse\<close>\<close>

definition fixedText :: "jsstring \<Rightarrow> replacement" where
  \<comment> \<open>a replacement string without \<^verbatim>\<open>$\<close>\<close>
  "fixedText r whole gs = r"

definition around :: "jsstring \<Rightarrow> nat \<Rightarrow> jsstring \<Rightarrow> replacement" where
  \<comment> \<open>a replacement string \<^verbatim>\<open>open$i close\<close>\<close>
  "around opn i cls whole gs = opn @ subst gs i @ cls"

definition escapeHtml :: "jsstring \<Rightarrow> jsstring" where
  "escapeHtml text =
     replace (literalRe (js ''>'')) (fixedText (js ''&gt;''))
       (replace (literalRe (js ''<'')) (fixedText (js ''&lt;''))
         (replace (literalRe (js ''&'')) (fixedText (js ''&amp;'')) text))"

definition codeBlockHtml :: replacement where
  \<comment> \<open>the arrow function of line 78: \<^verbatim>\<open>lang || 'text'\<close> and \<^verbatim>\<open>code.trim()\<close>\<close>
  "codeBlockHtml whole gs =
     js ''<pre><code class=\"language-''
     @ (case group gs 1 of None \<Rightarrow> js ''text'' | Some lang \<Rightarrow> if lang = [] then js ''text'' else lang)
     @ js ''\">'' @ trim (subst gs 2) @ js ''</code></pre>''"

definition formatCodeBlocks :: "jsstring \<Rightarrow> jsstring" where
  "formatCodeBlocks = replace codeBlockRe codeBlockHtml"

definition formatInlineCode :: "jsstring \<Rightarrow> jsstring" where
  "formatInlineCode = replace inlineCodeRe (around (js ''<code>'') 1 (js ''</code>''))"

definition formatHeadings :: "jsstring \<Rightarrow> jsstring" where
  "formatHeadings s =
     replace (lineRe (js ''# '')) (around (js ''<h2>'') 1 (js ''</h2>''))
       (replace (lineRe (js ''## '')) (around (js ''<h3>'') 1 (js ''</h3>''))
         (replace (lineRe (js ''### '')) (around (js ''<h4>'') 1 (js ''</h4>'')) s))"

definition formatLists :: "jsstring \<Rightarrow> jsstring" where
  "formatLists s =
     replace numberedRe (around (js ''<li>'') 2 (js ''</li>''))
       (replace (lineRe (js ''- '')) (around (js ''<li>'') 1 (js ''</li>'')) s)"

definition wrapLists :: "jsstring \<Rightarrow> jsstring" where
  \<comment> \<open>\<^verbatim>\<open>'<ul>$&</ul>'\<close>\<close>
  "wrapLists = replace listRunRe (\<lambda>whole gs. js ''<ul>'' @ whole @ js ''</ul>'')"

definition formatEmphasis :: "jsstring \<Rightarrow> jsstring" where
  "formatEmphasis s =
     replace (emphasisRe (js ''*'')) (around (js ''<em>'') 1 (js ''</em>''))
       (replace (emphasisRe (js ''**'')) (around (js ''<strong>'') 1 (js ''</strong>'')) s)"

definition formatLineBreaks :: "jsstring \<Rightarrow> jsstring" where
  "formatLineBreaks s =
     replace (literalRe (js ''\<newline>'')) (fixedText (js ''<br>''))
       (replace (literalRe (js ''\<newline>\<newline>'')) (fixedText (js ''</p><p>'')) s)"

definition wrapParagraph :: "jsstring \<Rightarrow> jsstring" where
  "wrapParagraph s = js ''<p>'' @ s @ js ''</p>''"

definition cleanUp :: "jsstring \<Rightarrow> jsstring" where
  "cleanUp s =
     replace (spacedRe (js ''</ul>'') (js ''</p>'')) (fixedText (js ''</ul>''))
       (replace (spacedRe (js ''<p>'') (js ''<ul>'')) (fixedText (js ''<ul>''))
         (replace (spacedRe (js ''<p>'') (js ''</p>'')) (fixedText []) s))"

definition markup :: "jsstring \<Rightarrow> jsstring" where
  \<comment> \<open>lines 77 to 111: everything behind the escaping\<close>
  "markup s =
     cleanUp (wrapParagraph (formatLineBreaks (formatEmphasis (wrapLists (formatLists
       (formatHeadings (formatInlineCode (formatCodeBlocks s))))))))"

definition formatResponse :: "jsstring \<Rightarrow> jsstring" where
  \<comment> \<open>\<^verbatim>\<open>if (!text) return ''\<close>: of the strings, the empty one is falsy\<close>
  "formatResponse text = (if text = [] then [] else markup (escapeHtml text))"

section \<open>\<^verbatim>\<open>callAgent\<close>\<close>

text \<open>
  What \<^verbatim>\<open>response.json()\<close> can give is any JSON value; \<^verbatim>\<open>data.error\<close> and
  \<^verbatim>\<open>data.response\<close> read a property of it and \<^verbatim>\<open>if (data.error)\<close>, \<^verbatim>\<open>||\<close> ask whether a value
  is truthy, so the values are modelled with both operations.
\<close>

datatype jsnumber = Finite real | PosInfinity | NegInfinity | NaN

datatype jsvalue =
    Undefined
  | Null
  | Boolean bool
  | Number jsnumber
  | String jsstring
  | Array "jsvalue list"
  | Object "(jsstring \<times> jsvalue) list"

datatype exception =
    NetworkError
  | ServerError nat
  | SyntaxError
  | TypeError

fun truthy :: "jsvalue \<Rightarrow> bool" where
  "truthy Undefined = False"
| "truthy Null = False"
| "truthy (Boolean b) = b"
| "truthy (Number n) = (n \<noteq> Finite 0 \<and> n \<noteq> NaN)"
| "truthy (String s) = (s \<noteq> [])"
| "truthy (Array xs) = True"
| "truthy (Object fields) = True"

fun getProp :: "jsvalue \<Rightarrow> jsstring \<Rightarrow> exception + jsvalue" where
  \<comment> \<open>\<^verbatim>\<open>data.error\<close>, \<^verbatim>\<open>data.response\<close>: reading a property of \<^verbatim>\<open>null\<close> or \<^verbatim>\<open>undefined\<close> throws; an
     object gives its own field, and neither the prototypes nor the primitive values have a
     property of these two names\<close>
  "getProp Undefined name = Inl TypeError"
| "getProp Null name = Inl TypeError"
| "getProp (Object fields) name =
     (case map_of fields name of None \<Rightarrow> Inr Undefined | Some v \<Rightarrow> Inr v)"
| "getProp v name = Inr Undefined"

record client =
  apiEndpoint :: jsstring
  loading :: bool

record request =
  url :: jsstring
  httpMethod :: jsstring
  contentType :: jsstring
  bodyPrompt :: jsstring
  bodyAgent :: jsstring

record result =
  response :: jsvalue
  error :: jsvalue

text \<open>
  The network is the environment: what the two awaited promises do is an input. \<^verbatim>\<open>fetch\<close>
  rejects, or resolves to a response with a status, whose \<^verbatim>\<open>json()\<close> rejects on a body that
  is not JSON or resolves to the parsed value.
\<close>

datatype json_outcome = Malformed | Parsed jsvalue

datatype fetch_outcome = Rejected | Responded nat json_outcome

definition ok :: "nat \<Rightarrow> bool" where
  \<comment> \<open>\<^verbatim>\<open>response.ok\<close>: the status is in the range 200 to 299\<close>
  "ok status \<longleftrightarrow> 200 \<le> status \<and> status \<le> 299"

definition constructor :: client where
  "constructor = \<lparr>apiEndpoint = js ''/.netlify/functions/ai-agent'', loading = False\<rparr>"

definition busyError :: jsstring where
  "busyError = js ''Already processing a request. Please wait.''"

definition emptyPromptError :: jsstring where
  "emptyPromptError = js ''Please enter a prompt or question.''"

definition connectError :: jsstring where
  "connectError =
     js ''Unable to connect to AI service. Please check your connection and try again.''"

definition noResponse :: jsstring where
  "noResponse = js ''No response received''"

datatype entered = Returned result | Awaiting request

definition callAgent_enter :: "client \<Rightarrow> jsstring \<Rightarrow> jsstring \<Rightarrow> entered \<times> client" where
  \<comment> \<open>lines 19 to 39: the part of the call that runs before the first \<^verbatim>\<open>await\<close>\<close>
  "callAgent_enter this prompt agent =
     (if loading this then
        (Returned \<lparr>response = String [], error = String busyError\<rparr>, this)
      else if prompt = [] \<or> trim prompt = [] then
        (Returned \<lparr>response = String [], error = String emptyPromptError\<rparr>, this)
      else
        (Awaiting \<lparr>url = apiEndpoint this, httpMethod = js ''POST'',
                    contentType = js ''application/json'',
                    bodyPrompt = trim prompt, bodyAgent = agent\<rparr>,
         this\<lparr>loading := True\<rparr>))"

definition tryBlock :: "fetch_outcome \<Rightarrow> exception + result" where
  \<comment> \<open>lines 30 to 51, once the promises have settled\<close>
  "tryBlock outcome =
     (case outcome of
        Rejected \<Rightarrow> Inl NetworkError
      | Responded status body \<Rightarrow>
          if \<not> ok status then Inl (ServerError status)
          else (case body of
                  Malformed \<Rightarrow> Inl SyntaxError
                | Parsed data \<Rightarrow>
                    (case getProp data (js ''error'') of
                       Inl e \<Rightarrow> Inl e
                     | Inr err \<Rightarrow>
                         if truthy err then Inr \<lparr>response = String [], error = err\<rparr>
                         else (case getProp data (js ''response'') of
                                 Inl e \<Rightarrow> Inl e
                               | Inr resp \<Rightarrow>
                                   Inr \<lparr>response = (if truthy resp then resp
                                                      else String noResponse),
                                        error = String []\<rparr>))))"

definition callAgent_settle :: "client \<Rightarrow> fetch_outcome \<Rightarrow> result \<times> client" where
  \<comment> \<open>\<^verbatim>\<open>try\<close>, \<^verbatim>\<open>catch\<close> (which logs the exception and answers the fixed message) and \<^verbatim>\<open>finally\<close>\<close>
  "callAgent_settle this outcome =
     ((case tryBlock outcome of
         Inr res \<Rightarrow> res
       | Inl e \<Rightarrow> \<lparr>response = String [], error = String connectError\<rparr>),
      this\<lparr>loading := False\<rparr>)"

definition callAgent ::
  "client \<Rightarrow> jsstring \<Rightarrow> jsstring \<Rightarrow> fetch_outcome \<Rightarrow> result \<times> client \<times> request list" where
  \<comment> \<open>one call from entry to settlement: its result, the client behind it, the requests sent\<close>
  "callAgent this prompt agent outcome =
     (case callAgent_enter this prompt agent of
        (Returned res, this') \<Rightarrow> (res, this', [])
      | (Awaiting req, this') \<Rightarrow>
          (case callAgent_settle this' outcome of (res, this'') \<Rightarrow> (res, this'', [req])))"

section \<open>Entities and tags of the output\<close>

text \<open>
  What the program itself writes into its output: the three entities of the escaping, and
  the tags of the replacement strings.
\<close>

definition escapeChar :: "jschar \<Rightarrow> jsstring" where
  \<comment> \<open>what the three replacements of lines 72 to 75 make of one code unit\<close>
  "escapeChar c =
     (if c = 0x26 then js ''&amp;''
      else if c = 0x3C then js ''&lt;''
      else if c = 0x3E then js ''&gt;''
      else [c])"

definition entities :: "jsstring list" where
  "entities = [js ''&amp;'', js ''&lt;'', js ''&gt;'']"

definition fixedTags :: "jsstring list" where
  \<comment> \<open>the tags that the replacement strings of lines 79 to 111 contain\<close>
  "fixedTags =
     [js ''<pre>'', js ''</pre>'', js ''<code>'', js ''</code>'',
      js ''<h4>'', js ''</h4>'', js ''<h3>'', js ''</h3>'', js ''<h2>'', js ''</h2>'',
      js ''<li>'', js ''</li>'', js ''<ul>'', js ''</ul>'',
      js ''<strong>'', js ''</strong>'', js ''<em>'', js ''</em>'',
      js ''<br>'', js ''<p>'', js ''</p>'']"

definition codeTag :: "jsstring \<Rightarrow> jsstring" where
  \<comment> \<open>the opening tag of line 79, with its language\<close>
  "codeTag lang = js ''<code class=\"language-'' @ lang @ js ''\">''"

definition isCodeTag :: "jsstring \<Rightarrow> bool" where
  \<comment> \<open>\<open>t\<close> is the opening tag of line 79 for some language of \<^verbatim>\<open>\w+\<close>\<close>
  "isCodeTag t \<longleftrightarrow>
     (let lang = takeWhile isWordChar (drop 22 t) in lang \<noteq> [] \<and> t = codeTag lang)"

definition isTag :: "jsstring \<Rightarrow> bool" where
  "isTag t \<longleftrightarrow> t \<in> set fixedTags \<or> isCodeTag t"

section \<open>Notions for the proofs\<close>

text \<open>
  The invariant of the rules: a text made of entities, of tags of the program, and of code
  units other than \<^verbatim>\<open>&\<close>, \<^verbatim>\<open><\<close> and \<^verbatim>\<open>>\<close>.
\<close>

definition isToken :: "jsstring \<Rightarrow> bool" where
  "isToken t \<longleftrightarrow> t \<in> set entities \<or> isTag t"

inductive wellTagged :: "jsstring \<Rightarrow> bool" where
  empty: "wellTagged []"
| plain: "c \<noteq> 0x26 \<Longrightarrow> c \<noteq> 0x3C \<Longrightarrow> c \<noteq> 0x3E \<Longrightarrow> wellTagged s \<Longrightarrow> wellTagged (c # s)"
| token: "isToken t \<Longrightarrow> wellTagged s \<Longrightarrow> wellTagged (t @ s)"

text \<open>
  Inside an entity or a tag every code unit but the first is an inner one; every other code
  unit is a boundary one, and a text can be cut in front of it.
\<close>

definition boundaryChar :: "jschar \<Rightarrow> bool" where
  "boundaryChar c \<longleftrightarrow>
     \<not> isWordChar c \<and> c \<noteq> 0x2F \<and> c \<noteq> 0x3E \<and> c \<noteq> 0x20 \<and> c \<noteq> 0x3D \<and> c \<noteq> 0x22 \<and>
     c \<noteq> 0x2D \<and> c \<noteq> 0x3B"

definition innerChar :: "jschar \<Rightarrow> bool" where
  "innerChar c \<longleftrightarrow> \<not> boundaryChar c \<and> c \<noteq> 0x3E \<and> c \<noteq> 0x3B"

definition tokenCheck :: "jsstring \<Rightarrow> bool" where
  "tokenCheck t \<longleftrightarrow>
     (case t of
        [] \<Rightarrow> False
      | h # r \<Rightarrow> (h = 0x3C \<or> h = 0x26) \<and> r \<noteq> [] \<and> (last r = 0x3E \<or> last r = 0x3B) \<and>
                 list_all innerChar (butlast r))"

definition tokenShape :: "jsstring \<Rightarrow> bool" where
  "tokenShape t \<longleftrightarrow>
     (\<exists>h b e. t = h # b @ [e] \<and> (h = 0x3C \<or> h = 0x26) \<and> (e = 0x3E \<or> e = 0x3B) \<and>
        (\<forall>c\<in>set b. \<not> boundaryChar c \<and> c \<noteq> 0x3E \<and> c \<noteq> 0x3B))"

text \<open>
  A scan copies a stretch of text where the expression cannot match: \<open>chain\<close> says so
  position by position, with the code unit before each position; \<open>lastOr\<close> is the code
  unit before the position behind the stretch.
\<close>

fun lastOr :: "jschar option \<Rightarrow> jsstring \<Rightarrow> jschar option" where
  "lastOr prev [] = prev"
| "lastOr prev (c # cs) = lastOr (Some c) cs"

fun chain :: "(jschar option \<Rightarrow> jschar \<Rightarrow> bool) \<Rightarrow> jschar option \<Rightarrow> jsstring \<Rightarrow> bool" where
  "chain P prev [] = True"
| "chain P prev (c # cs) = (P prev c \<and> chain P (Some c) cs)"

text \<open>
  The element that line 79 makes of a fenced block. Its tags are told from those the later
  rules look for by the two code units behind each \<^verbatim>\<open><\<close>: \<open>tagStarts\<close> says that every
  \<^verbatim>\<open><\<close> of a text opens \<^verbatim>\<open><pr\<close>, \<^verbatim>\<open><co\<close>, \<^verbatim>\<open></c\<close> or \<^verbatim>\<open></p\<close>.
\<close>

definition fenceHtml :: "jsstring \<Rightarrow> jsstring \<Rightarrow> jsstring" where
  "fenceHtml lang body =
     js ''<pre><code class=\"language-'' @ lang @ js ''\">'' @ body @ js ''</code></pre>''"

fun tagStarts :: "jsstring \<Rightarrow> bool" where
  "tagStarts [] = True"
| "tagStarts (c # s) =
     ((c = 0x3C \<longrightarrow> take 2 s \<in> {[0x70, 0x72], [0x63, 0x6F], [0x2F, 0x63], [0x2F, 0x70]}) \<and>
      tagStarts s)"

definition inertBlock :: "jsstring \<Rightarrow> bool" where
  \<comment> \<open>a text that opens with \<^verbatim>\<open><p\<close>, has no line terminator and only such tags\<close>
  "inertBlock x \<longleftrightarrow>
     take 2 x = [0x3C, 0x70] \<and> list_all (\<lambda>c. \<not> isLineTerminator c) x \<and> tagStarts x"

text \<open>
  The scan of an expression over a text comes to the position \<open>k\<close> of the text: no match
  before the position runs over it.
\<close>

function reaches :: "matcher \<Rightarrow> jschar option \<Rightarrow> jsstring \<Rightarrow> nat \<Rightarrow> bool" where
  "reaches m prev s 0 = True"
| "reaches m prev [] (Suc k) = False"
| "reaches m prev (c # cs) (Suc k) =
     (case m prev (c # cs) of
        None \<Rightarrow> reaches m (Some c) cs k
      | Some (n, gs) \<Rightarrow>
          if n = 0 then reaches m (Some c) cs k
          else n \<le> Suc k \<and>
               reaches m (Some (last (take n (c # cs)))) (drop n (c # cs)) (Suc k - n))"
  by pat_completeness auto
termination
  by (relation "measure (\<lambda>(m, prev, s, k). length s)") auto

text \<open>
  An expression matches somewhere in a text. It is asked of the expressions without
  \<^verbatim>\<open>^\<close>, where the code unit before the position does not matter.
\<close>

fun matchesIn :: "matcher \<Rightarrow> jsstring \<Rightarrow> bool" where
  "matchesIn m [] = (m None [] \<noteq> None)"
| "matchesIn m (c # cs) = (m None (c # cs) \<noteq> None \<or> matchesIn m cs)"

section \<open>Prefixes, lazy and greedy runs, scans\<close>

lemma startsWith_iff: "startsWith s p \<longleftrightarrow> (\<exists>t. s = p @ t)"
  by (induction s p rule: startsWith.induct) auto

lemma startsWith_append [simp]: "startsWith (p @ t) p"
  by (simp add: startsWith_iff)

lemma startsWithE: "startsWith s p \<Longrightarrow> (\<And>t. s = p @ t \<Longrightarrow> R) \<Longrightarrow> R"
  by (auto simp: startsWith_iff)

lemma startsWith_Nil [simp]: "startsWith [] p \<longleftrightarrow> p = []"
  by (cases p) simp_all

lemma lazyUntil_Some: "lazyUntil q d s = Some b \<Longrightarrow> \<exists>rest. s = b @ d @ rest"
proof (induction s arbitrary: b)
  case Nil
  then show ?case by (auto split: if_splits)
next
  case (Cons c cs)
  show ?case
  proof (cases "startsWith (c # cs) d")
    case True
    with Cons.prems have "b = []" by simp
    with True show ?thesis by (auto elim: startsWithE)
  next
    case False
    with Cons.prems obtain b' where "lazyUntil q d cs = Some b'" "b = c # b'"
      by (auto split: if_splits)
    with Cons.IH [of b'] show ?thesis by auto
  qed
qed

lemma greedyUntil_Some: "greedyUntil q d s = Some b \<Longrightarrow> \<exists>rest. s = b @ d @ rest"
proof (induction s arbitrary: b)
  case Nil
  then show ?case by (auto split: if_splits)
next
  case (Cons c cs)
  show ?case
  proof (cases "if q c then greedyUntil q d cs else None")
    case None
    with Cons.prems have "startsWith (c # cs) d" "b = []"
      by (auto split: if_splits)
    then show ?thesis by (auto elim: startsWithE)
  next
    case (Some b')
    with Cons.prems have "b = c # b'" "greedyUntil q d cs = Some b'"
      by (auto split: if_splits)
    with Cons.IH [of b'] show ?thesis by auto
  qed
qed

lemma replaceAll_skip:
  assumes "\<And>p c t. P p c \<Longrightarrow> m p (c # t) = None"
  shows "chain P prev u \<Longrightarrow> replaceAll m r prev (u @ v) = u @ replaceAll m r (lastOr prev u) v"
  using assms by (induction u arbitrary: prev) auto

section \<open>Entities and tags\<close>

lemma tokenCheck_shape: "tokenCheck t \<Longrightarrow> tokenShape t"
proof -
  assume "tokenCheck t"
  then obtain h r where t: "t = h # r" and h: "h = 0x3C \<or> h = 0x26" and r: "r \<noteq> []"
    and e: "last r = 0x3E \<or> last r = 0x3B" and b: "list_all innerChar (butlast r)"
    by (auto simp: tokenCheck_def split: list.splits)
  from r have "r = butlast r @ [last r]" by simp
  with t have "t = h # butlast r @ [last r]" by simp
  with h e b show ?thesis
    unfolding tokenShape_def innerChar_def list_all_iff by blast
qed

lemma innerChar_code [simp]:
  "innerChar c \<longleftrightarrow>
     (isWordChar c \<or> c = 0x2F \<or> c = 0x20 \<or> c = 0x3D \<or> c = 0x22 \<or> c = 0x2D)"
  by (auto simp: innerChar_def boundaryChar_def isWordChar_def isDigit_def)

lemma isCodeTag_iff:
  "isCodeTag t \<longleftrightarrow> (\<exists>lang. lang \<noteq> [] \<and> (\<forall>c\<in>set lang. isWordChar c) \<and> t = codeTag lang)"
proof
  assume "isCodeTag t"
  then show "\<exists>lang. lang \<noteq> [] \<and> (\<forall>c\<in>set lang. isWordChar c) \<and> t = codeTag lang"
    unfolding isCodeTag_def Let_def
    by (intro exI [of _ "takeWhile isWordChar (drop 22 t)"]) (auto dest: set_takeWhileD)
next
  assume "\<exists>lang. lang \<noteq> [] \<and> (\<forall>c\<in>set lang. isWordChar c) \<and> t = codeTag lang"
  then obtain lang where lang: "lang \<noteq> []" "\<forall>c\<in>set lang. isWordChar c" and t: "t = codeTag lang"
    by blast
  have len: "length (js ''<code class=\"language-'') = 22"
    by (simp add: js_def)
  have nw: "\<not> isWordChar (hd (js ''\">''))"
    by (simp add: js_def isWordChar_def isDigit_def)
  have tw: "takeWhile isWordChar (lang @ js ''\">'') = lang"
    using lang(2) nw by (simp add: takeWhile_append2 js_def)
  from t len have d: "drop 22 t = lang @ js ''\">''"
    by (simp add: codeTag_def)
  with t lang tw show "isCodeTag t"
    by (simp add: isCodeTag_def Let_def)
qed

lemma entity_shape: "t \<in> set entities \<Longrightarrow> tokenShape t"
  by (rule tokenCheck_shape)
    (auto simp: entities_def tokenCheck_def js_def isWordChar_def isDigit_def)

lemma fixedTag_shape: "t \<in> set fixedTags \<Longrightarrow> tokenShape t"
  by (rule tokenCheck_shape)
    (auto simp: fixedTags_def tokenCheck_def js_def isWordChar_def isDigit_def)

lemma codeTag_shape:
  assumes "\<forall>c\<in>set lang. isWordChar c"
  shows "tokenShape (codeTag lang)"
proof -
  have "codeTag lang = 0x3C # (js ''code class=\"language-'' @ lang @ js ''\"'') @ [0x3E]"
    by (simp add: codeTag_def js_def)
  moreover have "\<forall>c\<in>set (js ''code class=\"language-'' @ lang @ js ''\"'').
      \<not> boundaryChar c \<and> c \<noteq> 0x3E \<and> c \<noteq> 0x3B"
    using assms by (auto simp: js_def boundaryChar_def isWordChar_def isDigit_def)
  ultimately show ?thesis
    unfolding tokenShape_def by blast
qed

lemma token_shape: "isToken t \<Longrightarrow> tokenShape t"
  by (auto simp: isToken_def isTag_def isCodeTag_iff intro: entity_shape fixedTag_shape codeTag_shape)

lemma wt_token: "isToken t \<Longrightarrow> wellTagged t"
  using wellTagged.token [of t "[]"] by (simp add: wellTagged.empty)

lemma wt_append: "wellTagged u \<Longrightarrow> wellTagged v \<Longrightarrow> wellTagged (u @ v)"
  by (induction u rule: wellTagged.induct) (auto intro: wellTagged.intros)

lemma wt_peel:
  assumes "wellTagged (c # s)" and "c \<noteq> 0x3C" and "c \<noteq> 0x26"
  shows "wellTagged s"
  using assms(1)
proof (cases rule: wellTagged.cases)
  case (token t s')
  then obtain h b e where "t = h # b @ [e]" "h = 0x3C \<or> h = 0x26"
    using token_shape unfolding tokenShape_def by blast
  with token assms show ?thesis by auto
qed auto

lemma wt_split_aux:
  "wellTagged w \<Longrightarrow> w = u @ c # v \<Longrightarrow> boundaryChar c \<Longrightarrow> wellTagged u \<and> wellTagged (c # v)"
proof (induction w arbitrary: u rule: wellTagged.induct)
  case empty
  then show ?case by simp
next
  case (plain x s)
  show ?case
  proof (cases u)
    case Nil
    with plain show ?thesis by (auto intro: wellTagged.intros)
  next
    case (Cons y u')
    with plain.prems have "s = u' @ c # v" "y = x" by auto
    with plain.IH [of u'] plain.prems plain.hyps Cons show ?thesis
      by (auto intro: wellTagged.intros)
  qed
next
  case (token t s)
  from token.hyps obtain h b e where t: "t = h # b @ [e]" and e: "e = 0x3E \<or> e = 0x3B"
    and b: "\<forall>c\<in>set b. \<not> boundaryChar c \<and> c \<noteq> 0x3E \<and> c \<noteq> 0x3B"
    using token_shape unfolding tokenShape_def by blast
  from token.prems(1) obtain x where
    "(t = u @ x \<and> x @ s = c # v) \<or> (t @ x = u \<and> s = x @ c # v)"
    by (auto simp: append_eq_append_conv2)
  then show ?case
  proof
    assume 1: "t = u @ x \<and> x @ s = c # v"
    show ?thesis
    proof (cases x)
      case Nil
      with 1 token.hyps show ?thesis by (auto intro: wt_token)
    next
      case (Cons c' x')
      with 1 have c: "c' = c" and tu: "t = u @ c # x'" by auto
      show ?thesis
      proof (cases u)
        case Nil
        with token.prems(1) have "c # v = t @ s" by simp
        with Nil token.hyps show ?thesis
          by (auto simp: wellTagged.empty intro: wellTagged.token)
      next
        case (Cons h' u')
        with tu t have "c \<in> set (b @ [e])" by (auto simp: Cons_eq_append_conv)
        with b e token.prems(2) show ?thesis
          by (auto simp: boundaryChar_def)
      qed
    qed
  next
    assume 2: "t @ x = u \<and> s = x @ c # v"
    with token.IH [of x] token.prems(2) token.hyps show ?thesis
      by (auto intro: wellTagged.intros)
  qed
qed

lemma wt_split:
  "wellTagged (u @ c # v) \<Longrightarrow> boundaryChar c \<Longrightarrow> wellTagged u \<and> wellTagged (c # v)"
  by (rule wt_split_aux) auto

lemma token_prefix_free:
  assumes "tokenShape t" and "tokenShape t'" and "t @ s = t' @ s'"
  shows "t = t'"
proof -
  have *: "a = a'" if a: "tokenShape a" and a': "tokenShape a'" and eq: "a = a' @ x" for a a' x
  proof (cases x)
    case Nil
    with eq show ?thesis by simp
  next
    case (Cons y ys)
    from a obtain h b e where t: "a = h # b @ [e]"
      and b: "\<forall>c\<in>set b. \<not> boundaryChar c \<and> c \<noteq> 0x3E \<and> c \<noteq> 0x3B"
      unfolding tokenShape_def by blast
    from a' obtain h' b' e' where t': "a' = h' # b' @ [e']" and e': "e' = 0x3E \<or> e' = 0x3B"
      unfolding tokenShape_def by blast
    from eq t t' Cons have "b @ [e] = b' @ e' # y # ys" by simp
    then have "e' \<in> set b"
      by (metis append_butlast_last_id butlast.simps(2) butlast_append butlast_snoc
          in_set_conv_decomp list.distinct(1))
    with b e' show ?thesis by auto
  qed
  from assms(3) obtain x where "t = t' @ x \<or> t' = t @ x"
    by (auto simp: append_eq_append_conv2)
  then show ?thesis
  proof
    assume "t = t' @ x"
    then show ?thesis by (rule * [OF assms(1,2)])
  next
    assume "t' = t @ x"
    then have "t' = t" by (rule * [OF assms(2,1)])
    then show ?thesis by simp
  qed
qed

lemma wt_strip_token:
  assumes "isToken t" and "wellTagged (t @ s)"
  shows "wellTagged s"
proof -
  from assms(1) obtain h b e where t: "t = h # b @ [e]" "h = 0x3C \<or> h = 0x26"
    using token_shape unfolding tokenShape_def by blast
  from assms(2) show ?thesis
  proof (cases rule: wellTagged.cases)
    case empty
    with t show ?thesis by simp
  next
    case (plain c s')
    with t show ?thesis by auto
  next
    case (token t' s')
    with assms(1) have "t = t'"
      by (auto intro: token_prefix_free token_shape)
    with token show ?thesis by simp
  qed
qed

lemma wt_peel_last_aux:
  "wellTagged w \<Longrightarrow> w = u @ [c] \<Longrightarrow> c \<noteq> 0x3E \<Longrightarrow> c \<noteq> 0x3B \<Longrightarrow> wellTagged u"
proof (induction w arbitrary: u rule: wellTagged.induct)
  case empty
  then show ?case by simp
next
  case (plain x s)
  show ?case
  proof (cases u)
    case Nil
    then show ?thesis by (simp add: wellTagged.empty)
  next
    case (Cons y u')
    with plain.prems have "s = u' @ [c]" "y = x" by auto
    with plain.IH [of u'] plain.prems plain.hyps Cons show ?thesis
      by (auto intro: wellTagged.intros)
  qed
next
  case (token t s)
  from token.hyps obtain h b e where t: "t = h # b @ [e]" and e: "e = 0x3E \<or> e = 0x3B"
    using token_shape unfolding tokenShape_def by blast
  show ?case
  proof (cases s rule: rev_cases)
    case Nil
    with token.prems t e show ?thesis by auto
  next
    case (snoc s' c')
    with token.prems have "s = s' @ [c]" "u = t @ s'" by auto
    with token.IH [of s'] token.prems token.hyps show ?thesis
      by (auto intro: wellTagged.intros)
  qed
qed

lemma wt_peel_last: "wellTagged (u @ [c]) \<Longrightarrow> c \<noteq> 0x3E \<Longrightarrow> c \<noteq> 0x3B \<Longrightarrow> wellTagged u"
  by (rule wt_peel_last_aux) auto

lemma whiteSpace_plain: "isWhiteSpace c \<Longrightarrow> c \<noteq> 0x3C \<and> c \<noteq> 0x26 \<and> c \<noteq> 0x3E \<and> c \<noteq> 0x3B"
  by (auto simp: isWhiteSpace_def)

lemma wt_dropWhile_space: "wellTagged s \<Longrightarrow> wellTagged (dropWhile isWhiteSpace s)"
proof (induction s)
  case Nil
  then show ?case by simp
next
  case (Cons c s)
  then show ?case
    using wt_peel [of c s] whiteSpace_plain [of c] by auto
qed

lemma wt_dropWhile_space_end: "wellTagged s \<Longrightarrow> wellTagged (rev (dropWhile isWhiteSpace (rev s)))"
proof (induction s rule: rev_induct)
  case Nil
  then show ?case by simp
next
  case (snoc c s)
  then show ?case
    using wt_peel_last [of s c] whiteSpace_plain [of c] by auto
qed

lemma wt_trim: "wellTagged s \<Longrightarrow> wellTagged (trim s)"
  unfolding trim_def by (intro wt_dropWhile_space_end wt_dropWhile_space)

section \<open>A scan keeps a text well tagged\<close>

lemma boundary_lineTerminator: "isLineTerminator c \<Longrightarrow> boundaryChar c"
  by (auto simp: isLineTerminator_def boundaryChar_def isWordChar_def isDigit_def)

lemma chain_inner:
  "\<not> atLineStart p \<Longrightarrow> \<forall>x\<in>set u. \<not> boundaryChar x \<Longrightarrow>
   chain (\<lambda>p x. \<not> atLineStart p \<and> \<not> boundaryChar x) p u"
proof (induction u arbitrary: p)
  case Nil
  then show ?case by simp
next
  case (Cons x u)
  from Cons.prems have "\<not> atLineStart (Some x)"
    by (auto simp: atLineStart_def dest: boundary_lineTerminator)
  with Cons show ?case by simp
qed

lemma replaceAll_wellTagged:
  assumes M0: "\<And>p. m p [] = None"
    and M1: "\<And>p c t x. m p (c # t) = Some x \<Longrightarrow> boundaryChar c \<or> atLineStart p"
    and M2: "\<And>p s n gs. wellTagged s \<Longrightarrow> m p s = Some (n, gs) \<Longrightarrow>
               0 < n \<and> wellTagged (r (take n s) gs) \<and> wellTagged (drop n s)"
  shows "wellTagged s \<Longrightarrow> wellTagged (replaceAll m r prev s)"
proof (induction "length s" arbitrary: s prev rule: less_induct)
  case less
  show ?case
  proof (cases s)
    case Nil
    then show ?thesis by (simp add: M0 wellTagged.empty)
  next
    case (Cons c cs)
    show ?thesis
    proof (cases "m prev s")
      case (Some x)
      obtain n gs where x: "x = (n, gs)" by (cases x)
      from M2 [OF less.prems] Some x
      have n: "0 < n" and rep: "wellTagged (r (take n s) gs)" and rest: "wellTagged (drop n s)"
        by auto
      from n Cons have "length (drop n s) < length s" by simp
      from less.hyps [OF this rest]
      have "wellTagged (replaceAll m r (Some (last (take n s))) (drop n s))" .
      with rep have "wellTagged (r (take n s) gs
          @ replaceAll m r (Some (last (take n s))) (drop n s))"
        by (rule wt_append)
      with Some x n Cons show ?thesis by simp
    next
      case None
      with Cons have step: "replaceAll m r prev s = c # replaceAll m r (Some c) cs"
        by simp
      from less.prems show ?thesis
      proof (cases rule: wellTagged.cases)
        case empty
        with Cons show ?thesis by simp
      next
        case (plain c' s')
        with Cons have "c' = c" "s' = cs" by auto
        with plain less.hyps [of cs "Some c"] Cons step show ?thesis
          by (auto intro: wellTagged.plain)
      next
        case (token t s')
        from token(2) obtain h b e where t: "t = h # b @ [e]" and h: "h = 0x3C \<or> h = 0x26"
          and e: "e = 0x3E \<or> e = 0x3B"
          and b: "\<forall>c\<in>set b. \<not> boundaryChar c \<and> c \<noteq> 0x3E \<and> c \<noteq> 0x3B"
          using token_shape unfolding tokenShape_def by blast
        from token(1) t Cons have c: "c = h" and cs: "cs = (b @ [e]) @ s'" by auto
        from h have nl: "\<not> atLineStart (Some h)"
          by (auto simp: atLineStart_def isLineTerminator_def)
        from b e have inner: "\<forall>x\<in>set (b @ [e]). \<not> boundaryChar x"
          by (auto simp: boundaryChar_def)
        have quiet: "m p (x # u) = None" if "\<not> atLineStart p \<and> \<not> boundaryChar x" for p x u
          using that M1 [of p x u] by (cases "m p (x # u)") auto
        have "replaceAll m r (Some h) ((b @ [e]) @ s')
              = (b @ [e]) @ replaceAll m r (lastOr (Some h) (b @ [e])) s'"
          by (rule replaceAll_skip [where P = "\<lambda>p x. \<not> atLineStart p \<and> \<not> boundaryChar x"])
            (use quiet chain_inner [OF nl inner] in auto)
        with step c cs t have "replaceAll m r prev s
              = t @ replaceAll m r (lastOr (Some h) (b @ [e])) s'"
          by simp
        moreover from token(1) t have "length s' < length s" by simp
        from less.hyps [OF this token(3)]
        have "wellTagged (replaceAll m r (lastOr (Some h) (b @ [e])) s')" .
        ultimately show ?thesis
          using token(2) by (auto intro: wellTagged.token)
      qed
    qed
  qed
qed

lemma wt_takeWhile:
  assumes "\<And>c. \<not> P c \<Longrightarrow> boundaryChar c" and "wellTagged s"
  shows "wellTagged (takeWhile P s) \<and> wellTagged (dropWhile P s)"
proof (cases "dropWhile P s")
  case Nil
  then have "takeWhile P s = s"
    by (metis append_Nil2 takeWhile_dropWhile_id)
  with Nil assms(2) show ?thesis by (simp only: wellTagged.empty simp_thms)
next
  case (Cons c v)
  then have "\<not> P c" by (metis hd_dropWhile list.sel(1) list.distinct(1))
  then have "boundaryChar c" by (rule assms(1))
  moreover from Cons have "s = takeWhile P s @ c # v"
    by (metis takeWhile_dropWhile_id)
  ultimately show ?thesis
    using assms(2) wt_split [of "takeWhile P s" c v] Cons by simp
qed

lemma wt_drop_plain:
  "wellTagged (p @ s) \<Longrightarrow> 0x3C \<notin> set p \<Longrightarrow> 0x26 \<notin> set p \<Longrightarrow> wellTagged s"
proof (induction p)
  case Nil
  then show ?case by simp
next
  case (Cons c p)
  from Cons.prems have "wellTagged p \<or> wellTagged (p @ s)"
    using wt_peel [of c "p @ s"] by auto
  with Cons show ?case using wt_peel [of c "p @ s"] by auto
qed

lemma isToken_fixed: "t \<in> set fixedTags \<Longrightarrow> isToken t"
  by (simp add: isToken_def isTag_def)

lemma fixedTags_member [simp]:
  "js ''<pre>'' \<in> set fixedTags" "js ''</pre>'' \<in> set fixedTags"
  "js ''<code>'' \<in> set fixedTags" "js ''</code>'' \<in> set fixedTags"
  "js ''<h4>'' \<in> set fixedTags" "js ''</h4>'' \<in> set fixedTags"
  "js ''<h3>'' \<in> set fixedTags" "js ''</h3>'' \<in> set fixedTags"
  "js ''<h2>'' \<in> set fixedTags" "js ''</h2>'' \<in> set fixedTags"
  "js ''<li>'' \<in> set fixedTags" "js ''</li>'' \<in> set fixedTags"
  "js ''<ul>'' \<in> set fixedTags" "js ''</ul>'' \<in> set fixedTags"
  "js ''<strong>'' \<in> set fixedTags" "js ''</strong>'' \<in> set fixedTags"
  "js ''<em>'' \<in> set fixedTags" "js ''</em>'' \<in> set fixedTags"
  "js ''<br>'' \<in> set fixedTags" "js ''<p>'' \<in> set fixedTags"
  "js ''</p>'' \<in> set fixedTags"
  by (simp_all add: fixedTags_def)

lemma wt_around:
  assumes "opn \<in> set fixedTags" and "cls \<in> set fixedTags" and "wellTagged body"
  shows "wellTagged (opn @ body @ cls)"
proof -
  from assms(2) have "wellTagged cls"
    by (intro wt_token isToken_fixed)
  with assms(3) have "wellTagged (body @ cls)"
    by (rule wt_append)
  with assms(1) show ?thesis
    using wellTagged.token [of opn "body @ cls"] by (simp add: isToken_fixed)
qed

lemma around_Some [simp]: "around opn (Suc 0) cls whole (Some body # gs) = opn @ body @ cls"
  "around opn 2 cls whole (g # Some body # gs) = opn @ body @ cls"
  by (simp_all add: around_def subst_def group_def)

section \<open>Every rule keeps a text well tagged\<close>

lemma drop_takeWhile_length: "drop (length (takeWhile P s)) s = dropWhile P s"
  by (simp add: dropWhile_eq_drop)

lemma startsWith_Cons_iff: "startsWith s (c # p) \<longleftrightarrow> (\<exists>t. s = c # t \<and> startsWith t p)"
  by (cases s) auto

subsection \<open>Inline code\<close>

lemma inlineCodeRe_Some:
  assumes "inlineCodeRe p s = Some (n, gs)"
  obtains s' rest where "s = 0x60 # s'" and "takeWhile notBacktick s' \<noteq> []"
    and "dropWhile notBacktick s' = 0x60 # rest"
    and "n = length (takeWhile notBacktick s') + 2" and "gs = [Some (takeWhile notBacktick s')]"
    and "drop n s = rest"
proof -
  from assms obtain s' where s: "s = 0x60 # s'"
    by (auto simp: inlineCodeRe_def js_def startsWith_Cons_iff split: if_splits)
  let ?body = "takeWhile notBacktick s'"
  from assms s have body: "?body \<noteq> []" and fin: "startsWith (dropWhile notBacktick s') [0x60]"
    and n: "n = length ?body + 2" and gs: "gs = [Some ?body]"
    by (auto simp: inlineCodeRe_def js_def Let_def drop_takeWhile_length split: if_splits)
  from fin obtain rest where rest: "dropWhile notBacktick s' = 0x60 # rest"
    by (auto simp: startsWith_Cons_iff)
  have "drop n s = drop 1 (drop (length ?body) s')"
    using s n by simp
  with rest have "drop n s = rest"
    by (simp add: drop_takeWhile_length)
  with s body rest n gs show ?thesis
    by (rule that)
qed

lemma boundary_backtick: "\<not> notBacktick c \<Longrightarrow> boundaryChar c"
  by (simp add: notBacktick_def boundaryChar_def isWordChar_def isDigit_def)

lemma wt_formatInlineCode: "wellTagged s \<Longrightarrow> wellTagged (formatInlineCode s)"
  unfolding formatInlineCode_def replace_def
proof (rule replaceAll_wellTagged)
  show "inlineCodeRe p [] = None" for p
    by (simp add: inlineCodeRe_def js_def)
next
  fix p c t x
  assume "inlineCodeRe p (c # t) = Some x"
  then have "c = 0x60"
    by (auto simp: inlineCodeRe_def js_def split: if_splits)
  then show "boundaryChar c \<or> atLineStart p"
    by (simp add: boundaryChar_def isWordChar_def isDigit_def)
next
  fix p s n gs
  assume wt: "wellTagged s" and m: "inlineCodeRe p s = Some (n, gs)"
  from m obtain s' rest where s: "s = 0x60 # s'"
    and rest: "dropWhile notBacktick s' = 0x60 # rest"
    and n: "n = length (takeWhile notBacktick s') + 2"
    and gs: "gs = [Some (takeWhile notBacktick s')]" and d: "drop n s = rest"
    by (rule inlineCodeRe_Some)
  from wt s have "wellTagged s'"
    using wt_peel [of "0x60" s'] by simp
  then have "wellTagged (takeWhile notBacktick s')" and "wellTagged (dropWhile notBacktick s')"
    using wt_takeWhile [of notBacktick s'] boundary_backtick by auto
  with rest d gs n
  show "0 < n \<and> wellTagged (around (js ''<code>'') 1 (js ''</code>'') (take n s) gs)
        \<and> wellTagged (drop n s)"
    using wt_peel [of "0x60" rest] by (simp add: wt_around)
qed assumption

subsection \<open>Headings and list items\<close>

lemma boundary_lineEnd: "\<not> notLineTerminator c \<Longrightarrow> boundaryChar c"
  by (simp add: notLineTerminator_def boundary_lineTerminator)

lemma lineRe_Some:
  assumes "lineRe mk p s = Some (n, gs)"
  obtains s' where "atLineStart p" and "s = mk @ s'"
    and "n = length mk + length (takeWhile notLineTerminator s')"
    and "gs = [Some (takeWhile notLineTerminator s')]"
    and "drop n s = dropWhile notLineTerminator s'"
    and "takeWhile notLineTerminator s' \<noteq> []"
proof -
  from assms have start: "atLineStart p" and "startsWith s mk"
    by (auto simp: lineRe_def split: if_splits)
  then obtain s' where s: "s = mk @ s'"
    by (auto elim: startsWithE)
  let ?body = "takeWhile notLineTerminator s'"
  from assms s have n: "n = length mk + length ?body" and gs: "gs = [Some ?body]"
    and body: "?body \<noteq> []"
    by (auto simp: lineRe_def Let_def split: if_splits)
  have "drop n s = drop (length ?body) s'"
    using s n by (simp add: add.commute)
  then have "drop n s = dropWhile notLineTerminator s'"
    by (simp add: drop_takeWhile_length)
  with start s n gs show ?thesis
    using body by (rule that)
qed

lemma wt_lineRe:
  assumes mk: "mk \<noteq> []" "0x3C \<notin> set mk" "0x26 \<notin> set mk"
    and tags: "opn \<in> set fixedTags" "cls \<in> set fixedTags"
    and wt: "wellTagged s"
  shows "wellTagged (replace (lineRe mk) (around opn 1 cls) s)"
  unfolding replace_def
proof (rule replaceAll_wellTagged)
  show "lineRe mk p [] = None" for p
    using mk(1) by (simp add: lineRe_def)
next
  fix p c t x
  assume "lineRe mk p (c # t) = Some x"
  then show "boundaryChar c \<or> atLineStart p"
    by (auto simp: lineRe_def split: if_splits)
next
  fix p s n gs
  assume wt: "wellTagged s" and m: "lineRe mk p s = Some (n, gs)"
  from m obtain s' where s: "s = mk @ s'"
    and n: "n = length mk + length (takeWhile notLineTerminator s')"
    and gs: "gs = [Some (takeWhile notLineTerminator s')]"
    and d: "drop n s = dropWhile notLineTerminator s'"
    by (rule lineRe_Some)
  from wt s mk have "wellTagged s'"
    using wt_drop_plain [of mk s'] by simp
  then have "wellTagged (takeWhile notLineTerminator s')"
    and "wellTagged (dropWhile notLineTerminator s')"
    using wt_takeWhile [of notLineTerminator s'] boundary_lineEnd by auto
  with d gs n mk(1) tags
  show "0 < n \<and> wellTagged (around opn 1 cls (take n s) gs) \<and> wellTagged (drop n s)"
    by (simp add: wt_around)
qed (rule wt)

lemma wt_formatHeadings: "wellTagged s \<Longrightarrow> wellTagged (formatHeadings s)"
  unfolding formatHeadings_def
  by (intro wt_lineRe) (simp_all add: js_def fixedTags_def)

lemma numberedRe_Some:
  assumes "numberedRe p s = Some (n, gs)"
  obtains s' where "atLineStart p" and "takeWhile isDigit s \<noteq> []"
    and "s = takeWhile isDigit s @ 0x2E # 0x20 # s'"
    and "n = length (takeWhile isDigit s) + 2 + length (takeWhile notLineTerminator s')"
    and "gs = [Some (takeWhile isDigit s), Some (takeWhile notLineTerminator s')]"
    and "drop n s = dropWhile notLineTerminator s'"
proof -
  let ?num = "takeWhile isDigit s"
  from assms have start: "atLineStart p" and num: "?num \<noteq> []"
    and "startsWith (dropWhile isDigit s) (js ''. '')"
    by (auto simp: numberedRe_def Let_def drop_takeWhile_length split: if_splits)
  then obtain s' where s1: "dropWhile isDigit s = 0x2E # 0x20 # s'"
    by (auto simp: js_def startsWith_Cons_iff)
  then have s: "s = ?num @ 0x2E # 0x20 # s'"
    by (metis takeWhile_dropWhile_id)
  let ?body = "takeWhile notLineTerminator s'"
  from assms s1 have n: "n = length ?num + 2 + length ?body" and gs: "gs = [Some ?num, Some ?body]"
    by (auto simp: numberedRe_def Let_def drop_takeWhile_length js_def split: if_splits)
  have "drop n s = drop (length ?body) (drop 2 (drop (length ?num) s))"
    using n by (simp add: add.commute)
  with s1 have "drop n s = dropWhile notLineTerminator s'"
    by (simp add: drop_takeWhile_length)
  with start num s n gs show ?thesis
    by (rule that)
qed

lemma digit_plain: "isDigit c \<Longrightarrow> c \<noteq> 0x3C \<and> c \<noteq> 0x26"
  by (auto simp: isDigit_def)

lemma wt_numberedRe:
  assumes wt: "wellTagged s"
  shows "wellTagged (replace numberedRe (around (js ''<li>'') 2 (js ''</li>'')) s)"
  unfolding replace_def
proof (rule replaceAll_wellTagged)
  show "numberedRe p [] = None" for p
    by (simp add: numberedRe_def)
next
  fix p c t x
  assume "numberedRe p (c # t) = Some x"
  then show "boundaryChar c \<or> atLineStart p"
    by (auto simp: numberedRe_def split: if_splits)
next
  fix p s n gs
  assume wt: "wellTagged s" and m: "numberedRe p s = Some (n, gs)"
  from m obtain s' where num: "takeWhile isDigit s \<noteq> []"
    and s: "s = takeWhile isDigit s @ 0x2E # 0x20 # s'"
    and n: "n = length (takeWhile isDigit s) + 2 + length (takeWhile notLineTerminator s')"
    and gs: "gs = [Some (takeWhile isDigit s), Some (takeWhile notLineTerminator s')]"
    and d: "drop n s = dropWhile notLineTerminator s'"
    by (rule numberedRe_Some)
  have plain: "0x3C \<notin> set (takeWhile isDigit s @ [0x2E, 0x20])"
    "0x26 \<notin> set (takeWhile isDigit s @ [0x2E, 0x20])"
    using digit_plain by (auto dest: set_takeWhileD)
  from s have "s = (takeWhile isDigit s @ [0x2E, 0x20]) @ s'"
    by simp
  with wt have "wellTagged ((takeWhile isDigit s @ [0x2E, 0x20]) @ s')"
    by simp
  then have "wellTagged s'"
    using plain by (rule wt_drop_plain)
  then have "wellTagged (takeWhile notLineTerminator s')"
    and "wellTagged (dropWhile notLineTerminator s')"
    using wt_takeWhile [of notLineTerminator s'] boundary_lineEnd by auto
  with d gs n
  show "0 < n \<and> wellTagged (around (js ''<li>'') 2 (js ''</li>'') (take n s) gs)
        \<and> wellTagged (drop n s)"
    by (simp add: wt_around)
qed (rule wt)

lemma wt_formatLists: "wellTagged s \<Longrightarrow> wellTagged (formatLists s)"
  unfolding formatLists_def
  by (intro wt_numberedRe wt_lineRe) (simp_all add: js_def fixedTags_def)

subsection \<open>Emphasis\<close>

lemma emphasisRe_Some:
  assumes "emphasisRe d p s = Some (n, gs)"
  obtains c more rest where "s = d @ c # more @ d @ rest"
    and "n = length d + 1 + length more + length d" and "gs = [Some (c # more)]"
    and "drop n s = rest"
proof -
  from assms have "startsWith s d"
    by (auto simp: emphasisRe_def split: if_splits)
  then obtain s' where s: "s = d @ s'"
    by (auto elim: startsWithE)
  with assms obtain c s1 more where s': "s' = c # s1"
    and more: "lazyUntil notLineTerminator d s1 = Some more"
    and n: "n = length d + 1 + length more + length d" and gs: "gs = [Some (c # more)]"
    by (auto simp: emphasisRe_def split: if_splits list.splits option.splits)
  from more obtain rest where s1: "s1 = more @ d @ rest"
    by (auto dest: lazyUntil_Some)
  with s s' have "s = d @ c # more @ d @ rest"
    by simp
  moreover from this n have "drop n s = rest"
    by simp
  ultimately show ?thesis
    using n gs by (intro that)
qed

lemma wt_emphasisRe:
  assumes d: "d = js ''*'' \<or> d = js ''**''"
    and tags: "opn \<in> set fixedTags" "cls \<in> set fixedTags"
    and wt: "wellTagged s"
  shows "wellTagged (replace (emphasisRe d) (around opn 1 cls) s)"
  unfolding replace_def
proof (rule replaceAll_wellTagged)
  show "emphasisRe d p [] = None" for p
    using d by (auto simp: emphasisRe_def js_def)
next
  fix p c t x
  assume "emphasisRe d p (c # t) = Some x"
  with d have "c = 0x2A"
    by (auto simp: emphasisRe_def js_def split: if_splits)
  then show "boundaryChar c \<or> atLineStart p"
    by (simp add: boundaryChar_def isWordChar_def isDigit_def)
next
  fix p s n gs
  assume wt: "wellTagged s" and m: "emphasisRe d p s = Some (n, gs)"
  from m obtain c more rest where s: "s = d @ c # more @ d @ rest"
    and n: "n = length d + 1 + length more + length d" and gs: "gs = [Some (c # more)]"
    and dr: "drop n s = rest"
    by (rule emphasisRe_Some)
  from d obtain d' where d': "d = 0x2A # d'" and plain: "0x3C \<notin> set d" "0x26 \<notin> set d"
    by (auto simp: js_def)
  from wt s have "wellTagged (d @ (c # more @ d @ rest))"
    by simp
  then have "wellTagged (c # more @ d @ rest)"
    using plain by (rule wt_drop_plain)
  then have "wellTagged ((c # more) @ 0x2A # (d' @ rest))"
    using d' by simp
  then have body: "wellTagged (c # more)" and "wellTagged (0x2A # (d' @ rest))"
    using wt_split [of "c # more" "0x2A" "d' @ rest"]
    by (simp_all add: boundaryChar_def isWordChar_def isDigit_def)
  then have "wellTagged (d @ rest)"
    using d' by simp
  then have "wellTagged rest"
    using plain by (rule wt_drop_plain)
  with dr gs n wt_around [OF tags body]
  show "0 < n \<and> wellTagged (around opn 1 cls (take n s) gs) \<and> wellTagged (drop n s)"
    by simp
qed (rule wt)

lemma wt_formatEmphasis: "wellTagged s \<Longrightarrow> wellTagged (formatEmphasis s)"
  unfolding formatEmphasis_def
  by (intro wt_emphasisRe) (simp_all add: fixedTags_def)

subsection \<open>Line breaks and the paragraph\<close>

lemma wt_literalRe:
  assumes lit: "lit \<noteq> []" "\<forall>c\<in>set lit. boundaryChar c \<and> c \<noteq> 0x3C \<and> c \<noteq> 0x26"
    and rep: "wellTagged rep" and wt: "wellTagged s"
  shows "wellTagged (replace (literalRe lit) (fixedText rep) s)"
  unfolding replace_def
proof (rule replaceAll_wellTagged)
  show "literalRe lit p [] = None" for p
    using lit(1) by (simp add: literalRe_def)
next
  fix p c t x
  assume "literalRe lit p (c # t) = Some x"
  then have "startsWith (c # t) lit"
    by (auto simp: literalRe_def split: if_splits)
  with lit show "boundaryChar c \<or> atLineStart p"
    by (cases lit) auto
next
  fix p s n gs
  assume wt: "wellTagged s" and m: "literalRe lit p s = Some (n, gs)"
  then obtain rest where s: "s = lit @ rest" and n: "n = length lit"
    by (auto simp: literalRe_def split: if_splits elim: startsWithE)
  with wt lit have "wellTagged rest"
    using wt_drop_plain [of lit rest] by auto
  with s n lit(1) rep
  show "0 < n \<and> wellTagged (fixedText rep (take n s) gs) \<and> wellTagged (drop n s)"
    by (simp add: fixedText_def)
qed (rule wt)

lemma wt_formatLineBreaks: "wellTagged s \<Longrightarrow> wellTagged (formatLineBreaks s)"
proof -
  have "js ''</p><p>'' = js ''</p>'' @ js ''<p>''"
    by (simp add: js_def)
  then have 1: "wellTagged (js ''</p><p>'')"
    by (simp add: wt_append wt_token isToken_fixed)
  have 2: "wellTagged (js ''<br>'')"
    by (simp add: wt_token isToken_fixed)
  assume "wellTagged s"
  with 1 2 show ?thesis
    unfolding formatLineBreaks_def
    by (intro wt_literalRe)
      (simp_all add: js_def boundaryChar_def isWordChar_def isDigit_def)
qed

lemma wt_wrapParagraph: "wellTagged s \<Longrightarrow> wellTagged (wrapParagraph s)"
  unfolding wrapParagraph_def by (simp add: wt_around)

subsection \<open>Cleaning up\<close>

lemma spacedRe_Some:
  assumes "spacedRe a b p s = Some (n, gs)"
  obtains s' rest where "s = a @ s'" and "dropWhile isWhiteSpace s' = b @ rest"
    and "n = length a + length (takeWhile isWhiteSpace s') + length b" and "drop n s = rest"
proof -
  from assms have "startsWith s a"
    by (auto simp: spacedRe_def split: if_splits)
  then obtain s' where s: "s = a @ s'"
    by (auto elim: startsWithE)
  let ?ws = "takeWhile isWhiteSpace s'"
  have "drop (length a + length ?ws) s = dropWhile isWhiteSpace s'"
    using s by (simp add: add.commute drop_takeWhile_length)
  with assms s have "startsWith (dropWhile isWhiteSpace s') b"
    and n: "n = length a + length ?ws + length b"
    by (auto simp: spacedRe_def Let_def split: if_splits)
  then obtain rest where rest: "dropWhile isWhiteSpace s' = b @ rest"
    by (auto elim: startsWithE)
  have "drop n s = drop (length b) (drop (length ?ws) s')"
    using s n by (simp add: add.commute)
  with rest have "drop n s = rest"
    by (simp add: drop_takeWhile_length)
  with s rest n show ?thesis
    by (intro that)
qed

lemma wt_spacedRe:
  assumes a: "a \<in> set fixedTags" and b: "b \<in> set fixedTags"
    and rep: "wellTagged rep" and wt: "wellTagged s"
  shows "wellTagged (replace (spacedRe a b) (fixedText rep) s)"
  unfolding replace_def
proof (rule replaceAll_wellTagged)
  from a obtain a' where a': "a = 0x3C # a'"
    by (auto simp: fixedTags_def js_def)
  show "spacedRe a b p [] = None" for p
    using a' by (simp add: spacedRe_def)
  show "boundaryChar c \<or> atLineStart p" if "spacedRe a b p (c # t) = Some x" for p c t x
  proof -
    from that a' have "c = 0x3C"
      by (auto simp: spacedRe_def split: if_splits)
    then show ?thesis
      by (simp add: boundaryChar_def isWordChar_def isDigit_def)
  qed
  fix p s n gs
  assume wt: "wellTagged s" and m: "spacedRe a b p s = Some (n, gs)"
  from m obtain s' rest where s: "s = a @ s'" and rest: "dropWhile isWhiteSpace s' = b @ rest"
    and n: "n = length a + length (takeWhile isWhiteSpace s') + length b"
    and d: "drop n s = rest"
    by (rule spacedRe_Some)
  from wt s a have "wellTagged s'"
    using wt_strip_token [of a s'] by (simp add: isToken_fixed)
  then have "wellTagged (dropWhile isWhiteSpace s')"
    by (rule wt_dropWhile_space)
  with rest b have "wellTagged rest"
    using wt_strip_token [of b rest] by (simp add: isToken_fixed)
  with d n a' rep
  show "0 < n \<and> wellTagged (fixedText rep (take n s) gs) \<and> wellTagged (drop n s)"
    by (simp add: fixedText_def)
qed (rule wt)

lemma wt_cleanUp: "wellTagged s \<Longrightarrow> wellTagged (cleanUp s)"
  unfolding cleanUp_def
  by (intro wt_spacedRe) (simp_all add: wellTagged.empty wt_token isToken_fixed)

subsection \<open>List wrapping\<close>

lemma wt_listItem:
  assumes wt: "wellTagged s" and m: "listItem s = Some (n, item)"
  shows "0 < n \<and> wellTagged (take n s) \<and> wellTagged (drop n s)"
proof -
  let ?li = "js ''<li>''" and ?cli = "js ''</li>''"
  have len: "length ?li = 4" "length ?cli = 5"
    by (simp_all add: js_def)
  have cli: "?cli = 0x3C # tl ?cli"
    by (simp add: js_def)
  from m have "startsWith s ?li"
    by (auto simp: listItem_def split: if_splits)
  then obtain s' where s: "s = ?li @ s'"
    by (auto elim: startsWithE)
  with len have d4: "drop 4 s = s'"
    by simp
  with m s obtain body where g: "greedyUntil notLineTerminator ?cli s' = Some body"
    by (auto simp: listItem_def split: if_splits option.splits)
  then obtain r0 where s': "s' = body @ ?cli @ r0"
    by (auto dest: greedyUntil_Some)
  let ?n0 = "4 + length body + 5"
  from s s' len have d0: "drop ?n0 s = r0" and t0: "take ?n0 s = ?li @ body @ ?cli"
    by simp_all
  from m \<open>startsWith s ?li\<close> have "n = (if startsWith (drop ?n0 s) (js ''\<newline>'') then ?n0 + 1 else ?n0)"
    unfolding listItem_def d4 g by (auto simp: Let_def split: if_splits)
  then have n: "n = (if startsWith r0 (js ''\<newline>'') then ?n0 + 1 else ?n0)"
    unfolding d0 .
  from wt s have "wellTagged s'"
    using wt_strip_token [of ?li s'] by (simp add: isToken_fixed)
  with s' cli have "wellTagged (body @ 0x3C # (tl ?cli @ r0))"
    by (metis append_Cons)
  then have body: "wellTagged body" and "wellTagged (0x3C # (tl ?cli @ r0))"
    using wt_split [of body "0x3C" "tl ?cli @ r0"]
    by (simp_all add: boundaryChar_def isWordChar_def isDigit_def)
  with cli have "wellTagged (?cli @ r0)"
    by (metis append_Cons)
  then have r0: "wellTagged r0"
    using wt_strip_token [of ?cli r0] by (simp add: isToken_fixed)
  have item: "wellTagged (?li @ body @ ?cli)"
    using body by (simp add: wt_around)
  show ?thesis
  proof (cases "startsWith r0 (js ''\<newline>'')")
    case False
    with n d0 t0 r0 item show ?thesis by simp
  next
    case True
    then obtain r1 where r1: "r0 = 0x0A # r1"
      by (auto simp: js_def startsWith_Cons_iff)
    with r0 have "wellTagged r1"
      using wt_peel [of "0x0A" r1] by simp
    moreover from s s' r1 len have "drop (?n0 + 1) s = r1"
      and "take (?n0 + 1) s = (?li @ body @ ?cli) @ [0x0A]"
      by simp_all
    moreover have "wellTagged [0x0A]"
      by (simp add: wellTagged.intros)
    ultimately show ?thesis
      using n True item by (simp add: wt_append del: append_assoc)
  qed
qed

lemma wt_listItems:
  "wellTagged s \<Longrightarrow> listItems s = Some (n, item) \<Longrightarrow>
   0 < n \<and> wellTagged (take n s) \<and> wellTagged (drop n s)"
proof (induction s arbitrary: n item rule: listItems.induct)
  case (1 s)
  from "1.prems"(2) obtain n1 item1 where first: "listItem s = Some (n1, item1)"
    by (subst (asm) listItems.simps) (auto split: option.splits)
  from wt_listItem [OF "1.prems"(1) first]
  have n1: "0 < n1" and t1: "wellTagged (take n1 s)" and d1: "wellTagged (drop n1 s)"
    by auto
  show ?case
  proof (cases "listItems (drop n1 s)")
    case None
    with "1.prems"(2) first n1 have "n = n1"
      by (subst (asm) listItems.simps) simp
    with n1 t1 d1 show ?thesis by simp
  next
    case (Some x)
    obtain k item' where x: "x = (k, item')" by (cases x)
    with Some "1.prems"(2) first n1 have n: "n = n1 + k"
      by (subst (asm) listItems.simps) simp
    from "1.IH" [OF first refl _ d1, of k item'] n1 Some x
    have "0 < k" and "wellTagged (take k (drop n1 s))" and "wellTagged (drop k (drop n1 s))"
      by auto
    moreover have "take (n1 + k) s = take n1 s @ take k (drop n1 s)"
      by (rule take_add)
    moreover have "drop (n1 + k) s = drop k (drop n1 s)"
      by (simp add: add.commute)
    ultimately show ?thesis
      using n n1 t1 by (simp add: wt_append)
  qed
qed

lemma wt_wrapLists: "wellTagged s \<Longrightarrow> wellTagged (wrapLists s)"
  unfolding wrapLists_def replace_def
proof (rule replaceAll_wellTagged)
  show "listRunRe p [] = None" for p
    by (simp add: listRunRe_def listItems.simps [of "[]"] listItem_def js_def)
next
  fix p c t x
  assume "listRunRe p (c # t) = Some x"
  then have "listItem (c # t) \<noteq> None"
    by (auto simp: listRunRe_def listItems.simps [of "c # t"] split: option.splits)
  then have "c = 0x3C"
    by (auto simp: listItem_def js_def split: if_splits)
  then show "boundaryChar c \<or> atLineStart p"
    by (simp add: boundaryChar_def isWordChar_def isDigit_def)
next
  fix p s n gs
  assume wt: "wellTagged s" and m: "listRunRe p s = Some (n, gs)"
  then obtain item where "listItems s = Some (n, item)"
    by (auto simp: listRunRe_def split: option.splits)
  from wt_listItems [OF wt this]
  show "0 < n \<and> wellTagged (js ''<ul>'' @ take n s @ js ''</ul>'') \<and> wellTagged (drop n s)"
    by (simp add: wt_around)
qed assumption

subsection \<open>Code blocks\<close>

lemma codeBlockRe_Some:
  assumes "codeBlockRe p s = Some (n, gs)"
  obtains lang code rest where "s = js ''```'' @ lang @ 0x0A # code @ js ''```'' @ rest"
    and "\<forall>c\<in>set lang. isWordChar c"
    and "gs = [if lang = [] then None else Some lang, Some code]"
    and "drop n s = rest" and "0 < n"
proof -
  have len: "length (js ''```'') = 3"
    by (simp add: js_def)
  from assms have "startsWith s (js ''```'')"
    by (auto simp: codeBlockRe_def split: if_splits)
  then obtain s' where s: "s = js ''```'' @ s'"
    by (auto elim: startsWithE)
  with len have d3: "drop 3 s = s'"
    by simp
  let ?lang = "takeWhile isWordChar s'"
  have d: "drop (3 + length ?lang) s = dropWhile isWordChar s'"
    using s len by (simp add: add.commute drop_takeWhile_length)
  from assms \<open>startsWith s (js ''```'')\<close>
  have nl: "startsWith (dropWhile isWordChar s') (js ''\<newline>'')"
    unfolding codeBlockRe_def d3 Let_def d by (auto split: if_splits)
  then obtain s2 where s2: "dropWhile isWordChar s' = 0x0A # s2"
    by (auto simp: js_def startsWith_Cons_iff)
  from assms \<open>startsWith s (js ''```'')\<close> nl obtain code
    where code: "lazyUntil anyChar (js ''```'') s2 = Some code"
      and n: "n = 3 + length ?lang + 1 + length code + 3"
      and gs: "gs = [if ?lang = [] then None else Some ?lang, Some code]"
    unfolding codeBlockRe_def d3 Let_def d s2 by (auto split: if_splits option.splits)
  from code obtain rest where rest: "s2 = code @ js ''```'' @ rest"
    by (auto dest: lazyUntil_Some)
  have "s' = ?lang @ dropWhile isWordChar s'"
    by simp
  with s s2 rest have whole: "s = js ''```'' @ ?lang @ 0x0A # code @ js ''```'' @ rest"
    by simp
  have "s = (js ''```'' @ ?lang @ 0x0A # code @ js ''```'') @ rest"
    and "n = length (js ''```'' @ ?lang @ 0x0A # code @ js ''```'')"
    using whole n len by simp_all
  then have "drop n s = rest"
    by (metis append_eq_conv_conj)
  moreover have "\<forall>c\<in>set ?lang. isWordChar c"
    by (auto dest: set_takeWhileD)
  ultimately show ?thesis
    using whole gs n by (intro that [of ?lang code rest]) simp_all
qed

lemma wt_codeBlockHtml:
  assumes "\<forall>c\<in>set lang. isWordChar c" and "wellTagged code"
  shows "wellTagged (codeBlockHtml whole [if lang = [] then None else Some lang, Some code])"
proof -
  let ?l = "if lang = [] then js ''text'' else lang"
  have "?l \<noteq> []" and "\<forall>c\<in>set ?l. isWordChar c"
    using assms(1) by (auto simp: js_def isWordChar_def)
  then have "isToken (codeTag ?l)"
    unfolding isToken_def isTag_def isCodeTag_iff by blast
  moreover have "wellTagged (js ''</code>'' @ js ''</pre>'')"
    by (intro wt_append wt_token isToken_fixed) simp_all
  with assms(2) have "wellTagged (trim code @ js ''</code>'' @ js ''</pre>'')"
    by (simp add: wt_append wt_trim)
  ultimately have "wellTagged (codeTag ?l @ trim code @ js ''</code>'' @ js ''</pre>'')"
    by (rule wellTagged.token)
  then have "wellTagged (js ''<pre>'' @ codeTag ?l @ trim code @ js ''</code>'' @ js ''</pre>'')"
    by (rule wellTagged.token [OF isToken_fixed, rotated]) simp
  moreover have "codeBlockHtml whole [if lang = [] then None else Some lang, Some code]
      = js ''<pre>'' @ codeTag ?l @ trim code @ js ''</code>'' @ js ''</pre>''"
    by (simp add: codeBlockHtml_def group_def subst_def codeTag_def js_def)
  ultimately show ?thesis
    by simp
qed

lemma wt_formatCodeBlocks: "wellTagged s \<Longrightarrow> wellTagged (formatCodeBlocks s)"
  unfolding formatCodeBlocks_def replace_def
proof (rule replaceAll_wellTagged)
  show "codeBlockRe p [] = None" for p
    by (simp add: codeBlockRe_def js_def)
next
  fix p c t x
  assume "codeBlockRe p (c # t) = Some x"
  then have "c = 0x60"
    by (auto simp: codeBlockRe_def js_def split: if_splits)
  then show "boundaryChar c \<or> atLineStart p"
    by (simp add: boundaryChar_def isWordChar_def isDigit_def)
next
  fix p s n gs
  assume wt: "wellTagged s" and m: "codeBlockRe p s = Some (n, gs)"
  from m obtain lang code rest
    where s: "s = js ''```'' @ lang @ 0x0A # code @ js ''```'' @ rest"
      and lang: "\<forall>c\<in>set lang. isWordChar c"
      and gs: "gs = [if lang = [] then None else Some lang, Some code]"
      and d: "drop n s = rest" and n: "0 < n"
    by (rule codeBlockRe_Some)
  have fence: "0x3C \<notin> set (js ''```'')" "0x26 \<notin> set (js ''```'')"
    "js ''```'' = 0x60 # tl (js ''```'')" "0x3C \<notin> set (tl (js ''```''))"
    "0x26 \<notin> set (tl (js ''```''))"
    by (simp_all add: js_def)
  from wt s have "wellTagged (js ''```'' @ (lang @ 0x0A # code @ js ''```'' @ rest))"
    by simp
  then have "wellTagged (lang @ 0x0A # code @ js ''```'' @ rest)"
    using fence(1,2) by (rule wt_drop_plain)
  then have "wellTagged (0x0A # code @ js ''```'' @ rest)"
    using wt_split [of lang "0x0A" "code @ js ''```'' @ rest"]
    by (simp add: boundaryChar_def isWordChar_def isDigit_def)
  then have "wellTagged (code @ js ''```'' @ rest)"
    using wt_peel [of "0x0A"] by simp
  then have "wellTagged (code @ 0x60 # (tl (js ''```'') @ rest))"
    using fence(3) by (metis append_Cons)
  then have code: "wellTagged code" and "wellTagged (0x60 # (tl (js ''```'') @ rest))"
    using wt_split [of code "0x60" "tl (js ''```'') @ rest"]
    by (simp_all add: boundaryChar_def isWordChar_def isDigit_def)
  then have "wellTagged (tl (js ''```'') @ rest)"
    using wt_peel [of "0x60"] by simp
  then have "wellTagged rest"
    using fence(4,5) by (rule wt_drop_plain)
  with d n gs wt_codeBlockHtml [OF lang code]
  show "0 < n \<and> wellTagged (codeBlockHtml (take n s) gs) \<and> wellTagged (drop n s)"
    by simp
qed assumption

subsection \<open>Escaping\<close>

lemma replaceAll_char:
  "replaceAll (literalRe [k]) (fixedText r) prev s = concat (map (\<lambda>c. if c = k then r else [c]) s)"
  by (induction s arbitrary: prev) (simp_all add: literalRe_def fixedText_def)

lemma concat_map_concat_map:
  "concat (map f (concat (map g xs))) = concat (map (\<lambda>x. concat (map f (g x))) xs)"
  by (induction xs) simp_all

lemma escapeHtml_chars: "escapeHtml text = concat (map escapeChar text)"
proof -
  have lit: "js ''&'' = [0x26]" "js ''<'' = [0x3C]" "js ''>'' = [0x3E]"
    by (simp_all add: js_def)
  have "concat (map (\<lambda>c. if c = 0x3E then js ''&gt;'' else [c])
          (concat (map (\<lambda>c. if c = 0x3C then js ''&lt;'' else [c])
            (if c = 0x26 then js ''&amp;'' else [c])))) = escapeChar c" for c :: jschar
    by (simp add: escapeChar_def js_def)
  then show ?thesis
    unfolding escapeHtml_def replace_def lit replaceAll_char concat_map_concat_map
    by simp
qed

lemma wt_escapeChar: "wellTagged s \<Longrightarrow> wellTagged (escapeChar c @ s)"
  by (auto simp: escapeChar_def isToken_def isTag_def entities_def intro: wellTagged.intros)

lemma wt_escapeHtml: "wellTagged (escapeHtml input)"
  unfolding escapeHtml_chars
  by (induction input) (simp_all add: wellTagged.empty wt_escapeChar)

lemma wt_formatResponse: "wellTagged (formatResponse text)"
  unfolding formatResponse_def markup_def
  by (simp add: wellTagged.empty wt_escapeHtml wt_formatCodeBlocks wt_formatInlineCode
      wt_formatHeadings wt_formatLists wt_wrapLists wt_formatEmphasis wt_formatLineBreaks
      wt_wrapParagraph wt_cleanUp)

section \<open>A fenced block among the later rules\<close>

text \<open>
  The fence rule puts an element in the place of a block, and every later rule scans the
  whole text again, the element included. What follows shows that each of these scans
  leaves the element in one piece, whatever stands around it: no match begins inside it,
  and a match that begins before it either ends before it or takes it in whole and hands
  it on in its replacement.
\<close>

subsection \<open>Where a match lies in a text around a block\<close>

lemma append_cases:
  assumes "a @ b = c @ d"
  obtains us where "a = c @ us" "us @ b = d" | us where "us \<noteq> []" "a @ us = c" "b = us @ d"
proof -
  from assms have "\<exists>us. (a = c @ us \<and> us @ b = d) \<or> (a @ us = c \<and> b = us @ d)"
    by (rule append_eq_append_conv2 [THEN iffD1])
  then obtain us where us: "(a = c @ us \<and> us @ b = d) \<or> (a @ us = c \<and> b = us @ d)" ..
  show ?thesis
  proof (cases "us = []")
    case True
    with us have "a = c @ []" "[] @ b = d" by auto
    then show ?thesis by (rule that(1))
  next
    case False
    with us that show ?thesis by blast
  qed
qed

lemma prefix_split:
  assumes "mk @ s' = a @ X @ b" and "X \<noteq> []" and "hd X \<notin> set mk"
  shows "\<exists>a3. a = mk @ a3 \<and> s' = a3 @ X @ b"
  using assms(1)
proof (cases rule: append_cases)
  case (1 us)
  show ?thesis
  proof (cases "us = []")
    case True
    with 1 show ?thesis by simp
  next
    case False
    with 1(2) assms(2) have "hd X = hd us"
      by (cases X; cases us) simp_all
    with 1(1) False assms(3) have False
      by simp
    then show ?thesis ..
  qed
next
  case (2 us)
  then show ?thesis by auto
qed

lemma tag_prefix_split:
  assumes "(c # mk) @ s' = a @ X @ b" and "a \<noteq> []" and "X \<noteq> []" and "hd X \<notin> set mk"
  shows "\<exists>a3. a = (c # mk) @ a3 \<and> s' = a3 @ X @ b"
proof -
  from assms(1,2) obtain a' where a: "a = c # a'" and "mk @ s' = a' @ X @ b"
    by (cases a) auto
  from prefix_split [OF this(2) assms(3,4)] a show ?thesis
    by auto
qed

lemma split_atom:
  assumes "a @ X @ b = w @ d @ rest" and "set d \<inter> set X = {}" and "d \<noteq> []" and "X \<noteq> []"
  shows "(\<exists>w'. a = w @ d @ w') \<or> (\<exists>b1. w = a @ X @ b1)"
  using assms(1)
proof (cases rule: append_cases)
  case (1 us)
  note outer = 1
  from 1(2) show ?thesis
  proof (cases rule: append_cases)
    case (1 vs)
    with outer show ?thesis by simp
  next
    case (2 vs)
    with assms(4) have "hd vs = hd X"
      by (cases X; cases vs) simp_all
    moreover from 2 have "hd vs \<in> set d"
      by (metis Un_iff hd_in_set set_append)
    moreover from assms(4) have "hd X \<in> set X"
      by simp
    ultimately have False
      using assms(2) by auto
    then show ?thesis ..
  qed
next
  case (2 us)
  note outer = 2
  from 2(3) show ?thesis
  proof (cases rule: append_cases)
    case (1 ws)
    show ?thesis
    proof (cases "ws = []")
      case True
      with 1 outer show ?thesis by auto
    next
      case False
      with 1(2) assms(3) have "hd ws = hd d"
        by (cases d; cases ws) simp_all
      moreover from 1(1) False have "hd ws \<in> set X"
        by simp
      moreover from assms(3) have "hd d \<in> set d"
        by simp
      ultimately have False
        using assms(2) by auto
      then show ?thesis ..
    qed
  next
    case (2 ws)
    with outer show ?thesis by auto
  qed
qed

lemma takeWhile_span:
  "\<forall>c\<in>set X. P c \<Longrightarrow>
   takeWhile P (a @ X @ b) = (if \<forall>c\<in>set a. P c then a @ X @ takeWhile P b else takeWhile P a)"
  by (induction a) auto

lemma takeWhile_stop: "X \<noteq> [] \<Longrightarrow> \<not> P (hd X) \<Longrightarrow> takeWhile P (a @ X @ b) = takeWhile P a"
  by (induction a) (auto simp: neq_Nil_conv)

lemma dropWhile_stop:
  "X \<noteq> [] \<Longrightarrow> \<not> P (hd X) \<Longrightarrow> dropWhile P (a @ X @ b) = dropWhile P a @ X @ b"
  by (induction a) (auto simp: neq_Nil_conv)

subsection \<open>A scan of a text around a block\<close>

lemma replaceAll_inside:
  assumes "\<And>x1 x2. X = x1 @ x2 \<Longrightarrow> x2 \<noteq> [] \<Longrightarrow> m (lastOr p x1) (x2 @ b) = None"
  shows "replaceAll m r p (X @ b) = X @ replaceAll m r (lastOr p X) b"
  using assms
proof (induction X arbitrary: p)
  case Nil
  then show ?case by simp
next
  case (Cons c X)
  from Cons.prems [of "[]" "c # X"] have "m p (c # X @ b) = None"
    by simp
  moreover have "replaceAll m r (Some c) (X @ b) = X @ replaceAll m r (lastOr (Some c) X) b"
  proof (rule Cons.IH)
    fix x1 x2 assume "X = x1 @ x2" "x2 \<noteq> []"
    with Cons.prems [of "c # x1" x2] show "m (lastOr (Some c) x1) (x2 @ b) = None"
      by simp
  qed
  ultimately show ?case by simp
qed

lemma replaceAll_keeps:
  assumes inside: "\<And>p. \<exists>b'. replaceAll m r p (X @ b) = X @ b'"
    and before: "\<And>p a2 n gs. a2 \<noteq> [] \<Longrightarrow> m p (a2 @ X @ b) = Some (n, gs) \<Longrightarrow>
       n \<le> length a2 \<or> (\<exists>o1 o2. r (take n (a2 @ X @ b)) gs = o1 @ X @ o2)"
  shows "\<exists>a' b'. replaceAll m r p (a @ X @ b) = a' @ X @ b'"
proof (induction "length a" arbitrary: a p rule: less_induct)
  case less
  show ?case
  proof (cases a)
    case Nil
    with inside [of p] show ?thesis
      by (metis append_Nil)
  next
    case (Cons c cs)
    from less [of cs "Some c"] Cons
    obtain a1 b1 where step: "replaceAll m r (Some c) (cs @ X @ b) = a1 @ X @ b1"
      by auto
    show ?thesis
    proof (cases "m p (a @ X @ b)")
      case None
      with Cons step have "replaceAll m r p (a @ X @ b) = (c # a1) @ X @ b1"
        by simp
      then show ?thesis by blast
    next
      case (Some ng)
      then obtain n gs where m: "m p (a @ X @ b) = Some (n, gs)"
        by (cases ng) simp
      show ?thesis
      proof (cases "n = 0")
        case True
        with Cons step m have "replaceAll m r p (a @ X @ b) = (r [] gs @ c # a1) @ X @ b1"
          by simp
        then show ?thesis by blast
      next
        case False
        with Cons m have eq: "replaceAll m r p (a @ X @ b) = r (take n (a @ X @ b)) gs
            @ replaceAll m r (Some (last (take n (a @ X @ b)))) (drop n (a @ X @ b))"
          by simp
        from before [OF _ m] Cons
        consider "n \<le> length a" | o1 o2 where "r (take n (a @ X @ b)) gs = o1 @ X @ o2"
          by auto
        then show ?thesis
        proof cases
          case 1
          then have d: "drop n (a @ X @ b) = drop n a @ X @ b"
            by simp
          from False 1 Cons have "length (drop n a) < length a"
            by simp
          from less [OF this, of "Some (last (take n (a @ X @ b)))"]
          obtain a2 b2 where
            "replaceAll m r (Some (last (take n (a @ X @ b)))) (drop n a @ X @ b) = a2 @ X @ b2"
            by auto
          with eq d have "replaceAll m r p (a @ X @ b) = (r (take n (a @ X @ b)) gs @ a2) @ X @ b2"
            by simp
          then show ?thesis by blast
        next
          case 2
          with eq have "replaceAll m r p (a @ X @ b) = o1 @ X @ (o2
            @ replaceAll m r (Some (last (take n (a @ X @ b)))) (drop n (a @ X @ b)))"
            by simp
          then show ?thesis by blast
        qed
      qed
    qed
  qed
qed

subsection \<open>The element of a block\<close>

lemma chain_all: "\<forall>c\<in>set s. Q c \<Longrightarrow> chain (\<lambda>p c. Q c) prev s"
  by (induction s arbitrary: prev) simp_all

lemma lastOr_last: "x \<noteq> [] \<Longrightarrow> lastOr p x = Some (last x)"
  by (induction x arbitrary: p) auto

lemma inertBlock_Cons: "inertBlock X \<Longrightarrow> \<exists>y. X = 0x3C # 0x70 # y"
  by (cases X; cases "tl X") (auto simp: inertBlock_def)

lemma inertBlock_hd: "inertBlock X \<Longrightarrow> X \<noteq> [] \<and> hd X = 0x3C"
  by (auto dest: inertBlock_Cons)

lemma inertBlock_line: "inertBlock X \<Longrightarrow> c \<in> set X \<Longrightarrow> \<not> isLineTerminator c"
  by (simp add: inertBlock_def list_all_iff)

lemma tagStarts_suffix:
  "tagStarts (x1 @ 0x3C # s) \<Longrightarrow>
   \<exists>y. s = 0x70 # 0x72 # y \<or> s = 0x63 # 0x6F # y \<or> s = 0x2F # 0x63 # y \<or> s = 0x2F # 0x70 # y"
proof (induction x1)
  case Nil
  then have "take 2 s \<in> {[0x70, 0x72], [0x63, 0x6F], [0x2F, 0x63], [0x2F, 0x70 :: jschar]}"
    by simp
  then show ?case
    by (cases s; cases "tl s") auto
next
  case (Cons c x1)
  then show ?case by simp
qed

lemma inertBlock_tag:
  assumes "inertBlock X" and "X = x1 @ 0x3C # s"
  shows "\<exists>y. s = 0x70 # 0x72 # y \<or> s = 0x63 # 0x6F # y \<or> s = 0x2F # 0x63 # y \<or> s = 0x2F # 0x70 # y"
  using assms tagStarts_suffix [of x1 s] by (simp add: inertBlock_def)

lemma tagStarts_append:
  "\<forall>c\<in>set u. c \<noteq> 0x3C \<Longrightarrow> tagStarts (u @ v) = tagStarts v"
  by (induction u) simp_all

lemma fenceHtml_inert:
  assumes "\<forall>c\<in>set lang. isWordChar c" and "\<forall>c\<in>set body. c \<noteq> 0x3C \<and> \<not> isLineTerminator c"
  shows "inertBlock (fenceHtml lang body)"
proof -
  have word: "c \<noteq> 0x3C \<and> \<not> isLineTerminator c" if "isWordChar c" for c
    using that by (auto simp: isWordChar_def isDigit_def isLineTerminator_def)
  have "tagStarts (js ''</code></pre>'')"
    by (simp add: js_def)
  with assms have "tagStarts (body @ js ''</code></pre>'')"
    by (simp add: tagStarts_append)
  then have "tagStarts (js ''\">'' @ body @ js ''</code></pre>'')"
    by (simp add: js_def)
  with assms word have "tagStarts (lang @ js ''\">'' @ body @ js ''</code></pre>'')"
    by (simp add: tagStarts_append)
  then have "tagStarts (fenceHtml lang body)"
    by (simp add: fenceHtml_def js_def)
  moreover have "list_all (\<lambda>c. \<not> isLineTerminator c) (fenceHtml lang body)"
    using assms word by (auto simp: fenceHtml_def list_all_iff js_def isLineTerminator_def)
  moreover have "take 2 (fenceHtml lang body) = [0x3C, 0x70]"
    by (simp add: fenceHtml_def js_def)
  ultimately show ?thesis
    by (simp add: inertBlock_def)
qed

subsection \<open>Inside the element\<close>

lemma inside_chars:
  assumes "\<forall>c\<in>set X. Q c" and "\<And>p c t. Q c \<Longrightarrow> m p (c # t) = None"
  shows "\<exists>b'. replaceAll m r p (X @ b) = X @ b'"
proof -
  have "replaceAll m r p (X @ b) = X @ replaceAll m r (lastOr p X) b"
    by (rule replaceAll_skip [where P = "\<lambda>p c. Q c"]) (use assms in \<open>auto intro: chain_all\<close>)
  then show ?thesis ..
qed

lemma inside_line:
  assumes X: "inertBlock X" and none: "\<And>p c t. \<not> atLineStart p \<or> c = 0x3C \<Longrightarrow> m p (c # t) = None"
  shows "\<exists>b'. replaceAll m r p (X @ b) = X @ b'"
proof -
  have "replaceAll m r p (X @ b) = X @ replaceAll m r (lastOr p X) b"
  proof (rule replaceAll_inside)
    fix x1 x2 assume split: "X = x1 @ x2" and x2: "x2 \<noteq> []"
    then obtain c t where ct: "x2 = c # t"
      by (cases x2) auto
    show "m (lastOr p x1) (x2 @ b) = None"
    proof (cases "x1 = []")
      case True
      with split ct inertBlock_hd [OF X] have "c = 0x3C"
        by simp
      with ct show ?thesis
        by (simp add: none)
    next
      case False
      with split inertBlock_line [OF X, of "last x1"] have "\<not> isLineTerminator (last x1)"
        by simp
      with False have "\<not> atLineStart (lastOr p x1)"
        by (simp add: lastOr_last atLineStart_def)
      with ct show ?thesis
        by (simp add: none)
    qed
  qed
  then show ?thesis ..
qed

lemma inside_tags:
  assumes X: "inertBlock X" and none: "\<And>p c t. c \<noteq> 0x3C \<Longrightarrow> m p (c # t) = None"
    and tags: "\<And>p t. m p (0x3C # 0x70 # 0x72 # t) = None" "\<And>p t. m p (0x3C # 0x63 # 0x6F # t) = None"
      "\<And>p t. m p (0x3C # 0x2F # 0x63 # t) = None" "\<And>p t. m p (0x3C # 0x2F # 0x70 # t) = None"
  shows "\<exists>b'. replaceAll m r p (X @ b) = X @ b'"
proof -
  have "replaceAll m r p (X @ b) = X @ replaceAll m r (lastOr p X) b"
  proof (rule replaceAll_inside)
    fix x1 x2 assume split: "X = x1 @ x2" and x2: "x2 \<noteq> []"
    then obtain c t where ct: "x2 = c # t"
      by (cases x2) auto
    show "m (lastOr p x1) (x2 @ b) = None"
    proof (cases "c = 0x3C")
      case True
      with split ct inertBlock_tag [OF X, of x1 t] show ?thesis
        by (auto simp: tags)
    next
      case False
      with ct show ?thesis
        by (simp add: none)
    qed
  qed
  then show ?thesis ..
qed

subsection \<open>Runs that reach the element\<close>

lemma run_before:
  "\<forall>c\<in>set X. P c \<Longrightarrow> \<not> (\<forall>c\<in>set a. P c) \<Longrightarrow>
   takeWhile P (a @ X @ b) = takeWhile P a \<and> length (takeWhile P a) < length a"
  by (induction a) auto

lemma run_across:
  "\<forall>c\<in>set X. P c \<Longrightarrow> \<forall>c\<in>set a. P c \<Longrightarrow> takeWhile P (a @ X @ b) = a @ X @ takeWhile P b"
  by (simp add: takeWhile_span)

lemma inertBlock_dot: "inertBlock X \<Longrightarrow> \<forall>c\<in>set X. notLineTerminator c"
  by (simp add: inertBlock_line notLineTerminator_def)

subsection \<open>Inline code\<close>

lemma inlineCodeRe_None: "c \<noteq> 0x60 \<Longrightarrow> inlineCodeRe p (c # t) = None"
  "inlineCodeRe p [] = None"
  by (simp_all add: inlineCodeRe_def js_def)

lemma keeps_inlineCode:
  assumes X: "inertBlock X" and tick: "0x60 \<notin> set X"
  shows "\<exists>a' b'. formatInlineCode (a @ X @ b) = a' @ X @ b'"
  unfolding formatInlineCode_def replace_def
proof (rule replaceAll_keeps)
  fix p
  show "\<exists>b'. replaceAll inlineCodeRe (around (js ''<code>'') 1 (js ''</code>'')) p (X @ b) = X @ b'"
    by (rule inside_chars [where Q = "\<lambda>c. c \<noteq> 0x60"]) (use tick in \<open>auto simp: inlineCodeRe_None\<close>)
next
  fix p a2 n gs
  assume a2: "a2 \<noteq> []" and m: "inlineCodeRe p (a2 @ X @ b) = Some (n, gs)"
  from m obtain s' rest where s: "a2 @ X @ b = 0x60 # s'"
    and n: "n = length (takeWhile notBacktick s') + 2"
    and gs: "gs = [Some (takeWhile notBacktick s')]"
    by (rule inlineCodeRe_Some)
  from s a2 obtain a3 where a3: "a2 = 0x60 # a3" "s' = a3 @ X @ b"
    by (cases a2) auto
  have okX: "\<forall>c\<in>set X. notBacktick c"
    using tick by (auto simp: notBacktick_def)
  show "n \<le> length a2 \<or>
    (\<exists>o1 o2. around (js ''<code>'') 1 (js ''</code>'') (take n (a2 @ X @ b)) gs = o1 @ X @ o2)"
  proof (cases "\<forall>c\<in>set a3. notBacktick c")
    case True
    with okX a3 have "takeWhile notBacktick s' = a3 @ X @ takeWhile notBacktick b"
      by (simp add: run_across)
    with gs have "around (js ''<code>'') 1 (js ''</code>'') (take n (a2 @ X @ b)) gs
        = (js ''<code>'' @ a3) @ X @ (takeWhile notBacktick b @ js ''</code>'')"
      by simp
    then show ?thesis by blast
  next
    case False
    from run_before [OF okX False, of b] a3 n show ?thesis
      by simp
  qed
qed

subsection \<open>Headings and list items\<close>

lemma lineRe_None: "mk \<noteq> [] \<Longrightarrow> \<not> atLineStart p \<or> c \<noteq> hd mk \<Longrightarrow> lineRe mk p (c # t) = None"
  "mk \<noteq> [] \<Longrightarrow> lineRe mk p [] = None"
  by (cases mk; auto simp: lineRe_def)+

lemma numberedRe_None: "\<not> atLineStart p \<or> \<not> isDigit c \<Longrightarrow> numberedRe p (c # t) = None"
  "numberedRe p [] = None"
  by (auto simp: numberedRe_def)

lemma body_reach:
  assumes X: "inertBlock X"
  shows "length (takeWhile notLineTerminator (a @ X @ b)) \<le> length a \<or>
         (\<exists>b1. takeWhile notLineTerminator (a @ X @ b) = a @ X @ b1)"
proof (cases "\<forall>c\<in>set a. notLineTerminator c")
  case True
  with run_across [OF inertBlock_dot [OF X]] show ?thesis by blast
next
  case False
  with run_before [OF inertBlock_dot [OF X] False, of b] show ?thesis by simp
qed

lemma keeps_lineRe:
  assumes X: "inertBlock X" and mk: "mk \<noteq> []" "0x3C \<notin> set mk"
  shows "\<exists>a' b'. replace (lineRe mk) (around opn 1 cls) (a @ X @ b) = a' @ X @ b'"
  unfolding replace_def
proof (rule replaceAll_keeps)
  fix p
  show "\<exists>b'. replaceAll (lineRe mk) (around opn 1 cls) p (X @ b) = X @ b'"
  proof (rule inside_line [OF X])
    fix p c t assume "\<not> atLineStart p \<or> c = (0x3C :: jschar)"
    with mk have "\<not> atLineStart p \<or> c \<noteq> hd mk"
      by (cases mk) auto
    with mk(1) show "lineRe mk p (c # t) = None"
      by (rule lineRe_None)
  qed
next
  fix p a2 n gs
  assume a2: "a2 \<noteq> []" and m: "lineRe mk p (a2 @ X @ b) = Some (n, gs)"
  from m obtain s' where s: "a2 @ X @ b = mk @ s'"
    and n: "n = length mk + length (takeWhile notLineTerminator s')"
    and gs: "gs = [Some (takeWhile notLineTerminator s')]"
    by (rule lineRe_Some)
  from prefix_split [OF s [symmetric]] inertBlock_hd [OF X] mk(2)
  obtain a3 where a3: "a2 = mk @ a3" "s' = a3 @ X @ b"
    by auto
  from body_reach [OF X, of a3 b]
  show "n \<le> length a2 \<or> (\<exists>o1 o2. around opn 1 cls (take n (a2 @ X @ b)) gs = o1 @ X @ o2)"
  proof
    assume "length (takeWhile notLineTerminator (a3 @ X @ b)) \<le> length a3"
    with n a3 show ?thesis by simp
  next
    assume "\<exists>b1. takeWhile notLineTerminator (a3 @ X @ b) = a3 @ X @ b1"
    then obtain b1 where "takeWhile notLineTerminator s' = a3 @ X @ b1"
      using a3 by auto
    with gs have "around opn 1 cls (take n (a2 @ X @ b)) gs = (opn @ a3) @ X @ (b1 @ cls)"
      by simp
    then show ?thesis by blast
  qed
qed

lemma keeps_formatHeadings:
  assumes X: "inertBlock X"
  shows "\<exists>a' b'. formatHeadings (a @ X @ b) = a' @ X @ b'"
proof -
  have mk: "js ''### '' \<noteq> []" "0x3C \<notin> set (js ''### '')" "js ''## '' \<noteq> []" "0x3C \<notin> set (js ''## '')"
    "js ''# '' \<noteq> []" "0x3C \<notin> set (js ''# '')"
    by (simp_all add: js_def)
  from keeps_lineRe [OF X mk(1,2)] obtain a1 b1 where
    "replace (lineRe (js ''### '')) (around (js ''<h4>'') 1 (js ''</h4>'')) (a @ X @ b) = a1 @ X @ b1"
    by blast
  moreover from keeps_lineRe [OF X mk(3,4)] obtain a2 b2 where
    "replace (lineRe (js ''## '')) (around (js ''<h3>'') 1 (js ''</h3>'')) (a1 @ X @ b1) = a2 @ X @ b2"
    by blast
  moreover from keeps_lineRe [OF X mk(5,6)] obtain a3 b3 where
    "replace (lineRe (js ''# '')) (around (js ''<h2>'') 1 (js ''</h2>'')) (a2 @ X @ b2) = a3 @ X @ b3"
    by blast
  ultimately have "formatHeadings (a @ X @ b) = a3 @ X @ b3"
    by (simp add: formatHeadings_def)
  then show ?thesis by blast
qed

lemma keeps_numberedRe:
  assumes X: "inertBlock X"
  shows "\<exists>a' b'. replace numberedRe (around opn 2 cls) (a @ X @ b) = a' @ X @ b'"
  unfolding replace_def
proof (rule replaceAll_keeps)
  fix p
  show "\<exists>b'. replaceAll numberedRe (around opn 2 cls) p (X @ b) = X @ b'"
  proof (rule inside_line [OF X])
    fix p c t assume "\<not> atLineStart p \<or> c = (0x3C :: jschar)"
    then have "\<not> atLineStart p \<or> \<not> isDigit c"
      by (auto simp: isDigit_def)
    then show "numberedRe p (c # t) = None"
      by (rule numberedRe_None)
  qed
next
  fix p a2 n gs
  assume a2: "a2 \<noteq> []" and m: "numberedRe p (a2 @ X @ b) = Some (n, gs)"
  let ?num = "takeWhile isDigit (a2 @ X @ b)"
  from m obtain s' where s: "a2 @ X @ b = ?num @ 0x2E # 0x20 # s'"
    and n: "n = length ?num + 2 + length (takeWhile notLineTerminator s')"
    and gs: "gs = [Some ?num, Some (takeWhile notLineTerminator s')]"
    by (rule numberedRe_Some)
  have "\<not> isDigit (hd X)"
    using inertBlock_hd [OF X] by (simp add: isDigit_def)
  with inertBlock_hd [OF X] have num: "?num = takeWhile isDigit a2"
    by (simp add: takeWhile_stop)
  have "a2 = takeWhile isDigit a2 @ dropWhile isDigit a2"
    by simp
  with s num have "[0x2E, 0x20] @ s' = dropWhile isDigit a2 @ X @ b"
    by (metis append_Cons append_Nil append_assoc same_append_eq)
  from prefix_split [OF this] inertBlock_hd [OF X]
  obtain a3 where a3: "dropWhile isDigit a2 = [0x2E, 0x20] @ a3" "s' = a3 @ X @ b"
    by auto
  have len: "length a2 = length (takeWhile isDigit a2) + 2 + length a3"
    using arg_cong [OF takeWhile_dropWhile_id [of isDigit a2], of length] a3(1)
    by simp
  from body_reach [OF X, of a3 b]
  show "n \<le> length a2 \<or> (\<exists>o1 o2. around opn 2 cls (take n (a2 @ X @ b)) gs = o1 @ X @ o2)"
  proof
    assume "length (takeWhile notLineTerminator (a3 @ X @ b)) \<le> length a3"
    with n a3 num len show ?thesis by simp
  next
    assume "\<exists>b1. takeWhile notLineTerminator (a3 @ X @ b) = a3 @ X @ b1"
    then obtain b1 where "takeWhile notLineTerminator s' = a3 @ X @ b1"
      using a3 by auto
    with gs have "around opn 2 cls (take n (a2 @ X @ b)) gs = (opn @ a3) @ X @ (b1 @ cls)"
      by simp
    then show ?thesis by blast
  qed
qed

lemma keeps_formatLists:
  assumes X: "inertBlock X"
  shows "\<exists>a' b'. formatLists (a @ X @ b) = a' @ X @ b'"
proof -
  have mk: "js ''- '' \<noteq> []" "0x3C \<notin> set (js ''- '')"
    by (simp_all add: js_def)
  from keeps_lineRe [OF X mk] obtain a1 b1 where
    "replace (lineRe (js ''- '')) (around (js ''<li>'') 1 (js ''</li>'')) (a @ X @ b) = a1 @ X @ b1"
    by blast
  moreover from keeps_numberedRe [OF X] obtain a2 b2 where
    "replace numberedRe (around (js ''<li>'') 2 (js ''</li>'')) (a1 @ X @ b1) = a2 @ X @ b2"
    by blast
  ultimately have "formatLists (a @ X @ b) = a2 @ X @ b2"
    by (simp add: formatLists_def)
  then show ?thesis by blast
qed

subsection \<open>Emphasis\<close>

lemma emphasisRe_None: "d \<noteq> [] \<Longrightarrow> c \<noteq> hd d \<Longrightarrow> emphasisRe d p (c # t) = None"
  "d \<noteq> [] \<Longrightarrow> emphasisRe d p [] = None"
  by (cases d; auto simp: emphasisRe_def)+

lemma keeps_emphasisRe:
  assumes X: "inertBlock X" and star: "0x2A \<notin> set X" and d: "d \<noteq> []" "set d = {0x2A}"
  shows "\<exists>a' b'. replace (emphasisRe d) (around opn 1 cls) (a @ X @ b) = a' @ X @ b'"
  unfolding replace_def
proof (rule replaceAll_keeps)
  fix p
  from d have "hd d = 0x2A"
    by (cases d) auto
  with d(1) star
  show "\<exists>b'. replaceAll (emphasisRe d) (around opn 1 cls) p (X @ b) = X @ b'"
    by (intro inside_chars [where Q = "\<lambda>c. c \<noteq> 0x2A"]) (auto simp: emphasisRe_None)
next
  fix p a2 n gs
  assume a2: "a2 \<noteq> []" and m: "emphasisRe d p (a2 @ X @ b) = Some (n, gs)"
  from m obtain c more rest where s: "a2 @ X @ b = d @ c # more @ d @ rest"
    and n: "n = length d + 1 + length more + length d" and gs: "gs = [Some (c # more)]"
    by (rule emphasisRe_Some)
  have "hd X \<notin> set d"
    using inertBlock_hd [OF X] d(2) by simp
  from prefix_split [OF s [symmetric] _ this] inertBlock_hd [OF X]
  obtain a3 where a3: "a2 = d @ a3" "c # more @ d @ rest = a3 @ X @ b"
    by auto
  from a3(2) have "a3 @ X @ b = (c # more) @ d @ rest"
    by simp
  moreover have "set d \<inter> set X = {}"
    using star d(2) by simp
  ultimately have "(\<exists>w'. a3 = (c # more) @ d @ w') \<or> (\<exists>b1. c # more = a3 @ X @ b1)"
    using d(1) inertBlock_hd [OF X] by (intro split_atom) simp_all
  then show "n \<le> length a2 \<or> (\<exists>o1 o2. around opn 1 cls (take n (a2 @ X @ b)) gs = o1 @ X @ o2)"
  proof (elim disjE exE)
    fix w' assume "a3 = (c # more) @ d @ w'"
    with a3(1) n show ?thesis by simp
  next
    fix b1 assume "c # more = a3 @ X @ b1"
    with gs have "around opn 1 cls (take n (a2 @ X @ b)) gs = (opn @ a3) @ X @ (b1 @ cls)"
      by simp
    then show ?thesis by blast
  qed
qed

lemma keeps_formatEmphasis:
  assumes X: "inertBlock X" and star: "0x2A \<notin> set X"
  shows "\<exists>a' b'. formatEmphasis (a @ X @ b) = a' @ X @ b'"
proof -
  have d: "js ''**'' \<noteq> []" "set (js ''**'') = {0x2A}" "js ''*'' \<noteq> []" "set (js ''*'') = {0x2A}"
    by (simp_all add: js_def)
  from keeps_emphasisRe [OF X star d(1,2)] obtain a1 b1 where
    "replace (emphasisRe (js ''**'')) (around (js ''<strong>'') 1 (js ''</strong>'')) (a @ X @ b)
       = a1 @ X @ b1"
    by blast
  moreover from keeps_emphasisRe [OF X star d(3,4)] obtain a2 b2 where
    "replace (emphasisRe (js ''*'')) (around (js ''<em>'') 1 (js ''</em>'')) (a1 @ X @ b1)
       = a2 @ X @ b2"
    by blast
  ultimately have "formatEmphasis (a @ X @ b) = a2 @ X @ b2"
    by (simp add: formatEmphasis_def)
  then show ?thesis by blast
qed

subsection \<open>Line breaks and the paragraph\<close>

lemma literalRe_None: "lit \<noteq> [] \<Longrightarrow> c \<noteq> hd lit \<Longrightarrow> literalRe lit p (c # t) = None"
  "lit \<noteq> [] \<Longrightarrow> literalRe lit p [] = None"
  by (cases lit; auto simp: literalRe_def)+

lemma keeps_literalRe:
  assumes X: "inertBlock X" and lit: "lit \<noteq> []" "set lit = {0x0A}"
  shows "\<exists>a' b'. replace (literalRe lit) r (a @ X @ b) = a' @ X @ b'"
  unfolding replace_def
proof (rule replaceAll_keeps)
  fix p
  from lit have "hd lit = 0x0A"
    by (cases lit) auto
  moreover have "\<forall>c\<in>set X. c \<noteq> 0x0A"
    using inertBlock_line [OF X] by (auto simp: isLineTerminator_def)
  ultimately show "\<exists>b'. replaceAll (literalRe lit) r p (X @ b) = X @ b'"
    using lit(1) by (intro inside_chars [where Q = "\<lambda>c. c \<noteq> 0x0A"]) (auto simp: literalRe_None)
next
  fix p a2 n gs
  assume a2: "a2 \<noteq> []" and m: "literalRe lit p (a2 @ X @ b) = Some (n, gs)"
  then have "startsWith (a2 @ X @ b) lit" and n: "n = length lit"
    by (auto simp: literalRe_def split: if_splits)
  then obtain s' where s: "a2 @ X @ b = lit @ s'"
    by (auto elim: startsWithE)
  have "hd X \<notin> set lit"
    using inertBlock_hd [OF X] lit(2) by simp
  from prefix_split [OF s [symmetric] _ this] inertBlock_hd [OF X]
  obtain a3 where "a2 = lit @ a3"
    by auto
  with n show "n \<le> length a2 \<or> (\<exists>o1 o2. r (take n (a2 @ X @ b)) gs = o1 @ X @ o2)"
    by simp
qed

lemma keeps_formatLineBreaks:
  assumes X: "inertBlock X"
  shows "\<exists>a' b'. formatLineBreaks (a @ X @ b) = a' @ X @ b'"
proof -
  have lit: "js ''\<newline>\<newline>'' \<noteq> []" "set (js ''\<newline>\<newline>'') = {0x0A}"
    "js ''\<newline>'' \<noteq> []" "set (js ''\<newline>'') = {0x0A}"
    by (simp_all add: js_def)
  from keeps_literalRe [OF X lit(1,2)] obtain a1 b1 where
    "replace (literalRe (js ''\<newline>\<newline>'')) (fixedText (js ''</p><p>'')) (a @ X @ b) = a1 @ X @ b1"
    by blast
  moreover from keeps_literalRe [OF X lit(3,4)] obtain a2 b2 where
    "replace (literalRe (js ''\<newline>'')) (fixedText (js ''<br>'')) (a1 @ X @ b1) = a2 @ X @ b2"
    by blast
  ultimately have "formatLineBreaks (a @ X @ b) = a2 @ X @ b2"
    by (simp add: formatLineBreaks_def)
  then show ?thesis by blast
qed

lemma keeps_wrapParagraph: "\<exists>a' b'. wrapParagraph (a @ X @ b) = a' @ X @ b'"
proof -
  have "wrapParagraph (a @ X @ b) = (js ''<p>'' @ a) @ X @ (b @ js ''</p>'')"
    by (simp add: wrapParagraph_def)
  then show ?thesis by blast
qed

subsection \<open>Cleaning up\<close>

lemma spacedRe_None: "c \<noteq> 0x3C \<Longrightarrow> spacedRe (0x3C # ta) tb p (c # t) = None"
  "c \<noteq> x \<Longrightarrow> spacedRe (0x3C # x # ta) tb p (0x3C # c # t) = None"
  "c \<noteq> y \<Longrightarrow> spacedRe (0x3C # x # y # ta) tb p (0x3C # x # c # t) = None"
  by (simp_all add: spacedRe_def)

lemma keeps_spacedRe:
  assumes X: "inertBlock X"
    and tags: "(ta, tb) \<in> {(js ''p>'', js ''/p>''), (js ''p>'', js ''ul>''), (js ''/ul>'', js ''/p>'')}"
  shows "\<exists>a' b'. replace (spacedRe (0x3C # ta) (0x3C # tb)) r (a @ X @ b) = a' @ X @ b'"
  unfolding replace_def
proof (rule replaceAll_keeps)
  fix p
  show "\<exists>b'. replaceAll (spacedRe (0x3C # ta) (0x3C # tb)) r p (X @ b) = X @ b'"
    by (rule inside_tags [OF X]) (use tags in \<open>auto simp: js_def spacedRe_None\<close>)
next
  fix p a2 n gs
  assume a2: "a2 \<noteq> []" and m: "spacedRe (0x3C # ta) (0x3C # tb) p (a2 @ X @ b) = Some (n, gs)"
  from tags have ta: "0x3C \<notin> set ta" and tb: "0x3C \<notin> set tb" "tb \<noteq> []" "hd tb \<noteq> 0x70"
    by (auto simp: js_def)
  from m obtain s' rest where s: "a2 @ X @ b = (0x3C # ta) @ s'"
    and dw: "dropWhile isWhiteSpace s' = (0x3C # tb) @ rest"
    and n: "n = length (0x3C # ta) + length (takeWhile isWhiteSpace s') + length (0x3C # tb)"
    by (rule spacedRe_Some)
  from tag_prefix_split [OF s [symmetric] a2] inertBlock_hd [OF X] ta
  obtain a3 where a3: "a2 = (0x3C # ta) @ a3" "s' = a3 @ X @ b"
    by auto
  have ws: "\<not> isWhiteSpace (hd X)"
    using inertBlock_hd [OF X] by (simp add: isWhiteSpace_def)
  with a3 inertBlock_hd [OF X] have run: "takeWhile isWhiteSpace s' = takeWhile isWhiteSpace a3"
    and rest: "dropWhile isWhiteSpace s' = dropWhile isWhiteSpace a3 @ X @ b"
    by (simp_all add: takeWhile_stop dropWhile_stop)
  have "dropWhile isWhiteSpace a3 \<noteq> []"
  proof
    assume "dropWhile isWhiteSpace a3 = []"
    with rest dw have "X @ b = 0x3C # tb @ rest"
      by simp
    with inertBlock_Cons [OF X] tb(2,3) show False
      by (cases tb) auto
  qed
  from tag_prefix_split [OF _ this] dw rest inertBlock_hd [OF X] tb(1)
  obtain a4 where "dropWhile isWhiteSpace a3 = (0x3C # tb) @ a4"
    by metis
  with arg_cong [OF takeWhile_dropWhile_id [of isWhiteSpace a3], of length]
  have "length (takeWhile isWhiteSpace a3) + length (0x3C # tb) \<le> length a3"
    by simp
  with n run a3(1) show "n \<le> length a2 \<or> (\<exists>o1 o2. r (take n (a2 @ X @ b)) gs = o1 @ X @ o2)"
    by simp
qed

lemma keeps_cleanUp:
  assumes X: "inertBlock X"
  shows "\<exists>a' b'. cleanUp (a @ X @ b) = a' @ X @ b'"
proof -
  have tags: "js ''<p>'' = 0x3C # js ''p>''" "js ''</p>'' = 0x3C # js ''/p>''"
    "js ''<ul>'' = 0x3C # js ''ul>''" "js ''</ul>'' = 0x3C # js ''/ul>''"
    by (simp_all add: js_def)
  from keeps_spacedRe [OF X, of "js ''p>''" "js ''/p>''"] obtain a1 b1 where
    "replace (spacedRe (js ''<p>'') (js ''</p>'')) (fixedText []) (a @ X @ b) = a1 @ X @ b1"
    unfolding tags by blast
  moreover from keeps_spacedRe [OF X, of "js ''p>''" "js ''ul>''"] obtain a2 b2 where
    "replace (spacedRe (js ''<p>'') (js ''<ul>'')) (fixedText (js ''<ul>'')) (a1 @ X @ b1) = a2 @ X @ b2"
    unfolding tags by blast
  moreover from keeps_spacedRe [OF X, of "js ''/ul>''" "js ''/p>''"] obtain a3 b3 where
    "replace (spacedRe (js ''</ul>'') (js ''</p>'')) (fixedText (js ''</ul>'')) (a2 @ X @ b2) = a3 @ X @ b3"
    unfolding tags by blast
  ultimately have "cleanUp (a @ X @ b) = a3 @ X @ b3"
    by (simp add: cleanUp_def)
  then show ?thesis by blast
qed

subsection \<open>List wrapping\<close>

lemma split_tag:
  assumes X: "inertBlock X" and eq: "a @ X @ b = w @ (0x3C # 0x2F # 0x6C # d') @ rest"
    and d': "0x3C \<notin> set d'"
  shows "(\<exists>w'. a = w @ (0x3C # 0x2F # 0x6C # d') @ w') \<or> (\<exists>b1. w = a @ X @ b1)"
  using eq
proof (cases rule: append_cases)
  case (1 us)
  note outer = 1
  from 1(2) show ?thesis
  proof (cases rule: append_cases)
    case (1 vs)
    with outer show ?thesis by simp
  next
    case (2 vs)
    with inertBlock_hd [OF X] have vs: "hd vs = 0x3C"
      by (cases X; cases vs) simp_all
    have False
    proof (cases "us = []")
      case True
      with 2 have "X @ b = 0x3C # 0x2F # 0x6C # d' @ rest"
        by simp
      with inertBlock_Cons [OF X] show False
        by auto
    next
      case False
      with 2(2) obtain us' where "us' @ vs = 0x2F # 0x6C # d'"
        by (cases us) auto
      then have "set us' \<union> set vs = set (0x2F # 0x6C # d')"
        by (metis set_append)
      then have "set vs \<subseteq> set (0x2F # 0x6C # d')"
        by blast
      moreover from 2(1) vs have "0x3C \<in> set vs"
        by (cases vs) auto
      ultimately show False
        using d' by auto
    qed
    then show ?thesis ..
  qed
next
  case (2 us)
  note outer = 2
  from 2(3) show ?thesis
  proof (cases rule: append_cases)
    case (1 ws)
    show ?thesis
    proof (cases ws)
      case Nil
      with 1 outer show ?thesis by auto
    next
      case (Cons c t)
      with 1(2) have c: "c = 0x3C" and t: "t @ b = 0x2F # 0x6C # d' @ rest"
        by simp_all
      from inertBlock_tag [OF X, of us t] 1(1) Cons c t have False
        by auto
      then show ?thesis ..
    qed
  next
    case (2 ws)
    with outer show ?thesis by auto
  qed
qed

lemma listItem_before:
  assumes X: "inertBlock X" and a2: "a2 \<noteq> []" and m: "listItem (a2 @ X @ b) = Some (n, item)"
  shows "0 < n \<and> (n \<le> length a2 \<or> length a2 + length X \<le> n)"
proof -
  let ?s = "a2 @ X @ b"
  have li: "js ''<li>'' = 0x3C # js ''li>''" "0x3C \<notin> set (js ''li>'')" "length (js ''<li>'') = 4"
    and cli: "js ''</li>'' = 0x3C # 0x2F # 0x6C # js ''i>''" "0x3C \<notin> set (js ''i>'')"
      "length (js ''</li>'') = 5"
    and nl: "js ''\<newline>'' = [0x0A]"
    by (simp_all add: js_def)
  from m have start: "startsWith ?s (js ''<li>'')"
    by (auto simp: listItem_def split: if_splits)
  with m obtain body where body: "greedyUntil notLineTerminator (js ''</li>'') (drop 4 ?s) = Some body"
    and n: "n = (if startsWith (drop (4 + length body + 5) ?s) (js ''\<newline>'')
                 then 4 + length body + 5 + 1 else 4 + length body + 5)"
    by (auto simp: listItem_def Let_def split: option.splits if_splits)
  from start obtain s' where s: "?s = js ''<li>'' @ s'"
    by (auto elim: startsWithE)
  then have "(0x3C # js ''li>'') @ s' = a2 @ X @ b"
    by (simp add: li(1))
  from tag_prefix_split [OF this a2] inertBlock_hd [OF X] li(2)
  obtain a3 where a3: "a2 = js ''<li>'' @ a3" "s' = a3 @ X @ b"
    by (auto simp: li(1))
  from s li(3) have "drop 4 ?s = s'"
    by simp
  with body obtain rest where "s' = body @ js ''</li>'' @ rest"
    by (auto dest: greedyUntil_Some)
  with a3(2) have "a3 @ X @ b = body @ (0x3C # 0x2F # 0x6C # js ''i>'') @ rest"
    by (simp add: cli(1))
  from split_tag [OF X this cli(2)]
  show ?thesis
  proof (elim disjE exE)
    fix w' assume w': "a3 = body @ (0x3C # 0x2F # 0x6C # js ''i>'') @ w'"
    then have a3': "a3 = body @ js ''</li>'' @ w'"
      by (simp add: cli(1))
    with a3(1) li(3) cli(3) have len: "length a2 = 4 + length body + 5 + length w'"
      by simp
    show ?thesis
    proof (cases "w' = []")
      case True
      with a3(1) a3' li(3) cli(3) have "drop (4 + length body + 5) ?s = X @ b"
        by simp
      with inertBlock_Cons [OF X] have "\<not> startsWith (drop (4 + length body + 5) ?s) (js ''\<newline>'')"
        by (auto simp: nl)
      with n len show ?thesis by simp
    next
      case False
      with n len show ?thesis by (auto simp: Suc_le_eq split: if_splits)
    qed
  next
    fix b1 assume "body = a3 @ X @ b1"
    with a3(1) li(3) have "length a2 + length X \<le> 4 + length body + 5"
      by simp
    with n show ?thesis by (simp split: if_splits)
  qed
qed

lemma listItems_before:
  "inertBlock X \<Longrightarrow> s = a2 @ X @ b \<Longrightarrow> a2 \<noteq> [] \<Longrightarrow> listItems s = Some (n, item) \<Longrightarrow>
   n \<le> length a2 \<or> length a2 + length X \<le> n"
proof (induction s arbitrary: n item a2 rule: listItems.induct)
  case (1 s)
  note X = "1.prems"(1) and s = "1.prems"(2) and a2 = "1.prems"(3) and m = "1.prems"(4)
  from m obtain n1 item1 where first: "listItem s = Some (n1, item1)"
    by (subst (asm) listItems.simps) (auto split: option.splits)
  from listItem_before [OF X a2] first s
  have n1: "0 < n1" "n1 \<le> length a2 \<or> length a2 + length X \<le> n1"
    by auto
  show ?case
  proof (cases "listItems (drop n1 s)")
    case None
    with m first n1 have "n = n1"
      by (subst (asm) listItems.simps) simp
    with n1 show ?thesis by simp
  next
    case (Some x)
    obtain k item' where x: "x = (k, item')" by (cases x)
    with Some m first n1 have n: "n = n1 + k"
      by (subst (asm) listItems.simps) simp
    from n1(2) show ?thesis
    proof
      assume le: "n1 \<le> length a2"
      then have d: "drop n1 s = drop n1 a2 @ X @ b"
        using s by simp
      show ?thesis
      proof (cases "drop n1 a2 = []")
        case True
        with d Some have "listItems (X @ b) \<noteq> None"
          by simp
        then have "listItem (X @ b) \<noteq> None"
          by (subst (asm) listItems.simps) (auto split: option.splits)
        then have "startsWith (X @ b) (js ''<li>'')"
          by (auto simp: listItem_def split: if_splits)
        with inertBlock_Cons [OF X] have False
          by (auto simp: js_def)
        then show ?thesis ..
      next
        case False
        from "1.IH" [OF first refl _ X d False, of k item'] n1(1) Some x
        have "k \<le> length (drop n1 a2) \<or> length (drop n1 a2) + length X \<le> k"
          by simp
        with le n show ?thesis by auto
      qed
    next
      assume "length a2 + length X \<le> n1"
      with n show ?thesis by simp
    qed
  qed
qed

lemma listRunRe_None: "c \<noteq> 0x3C \<Longrightarrow> listRunRe p (c # t) = None"
  "c \<noteq> 0x6C \<Longrightarrow> listRunRe p (0x3C # c # t) = None"
  "listRunRe p [] = None"
  by (simp_all add: listRunRe_def listItems.simps [of "_ # _"] listItems.simps [of "[]"]
      listItem_def js_def)

lemma keeps_wrapLists:
  assumes X: "inertBlock X"
  shows "\<exists>a' b'. wrapLists (a @ X @ b) = a' @ X @ b'"
  unfolding wrapLists_def replace_def
proof (rule replaceAll_keeps)
  fix p
  show "\<exists>b'. replaceAll listRunRe (\<lambda>whole gs. js ''<ul>'' @ whole @ js ''</ul>'') p (X @ b) = X @ b'"
    by (rule inside_tags [OF X]) (simp_all add: listRunRe_None)
next
  fix p a2 n gs
  assume a2: "a2 \<noteq> []" and m: "listRunRe p (a2 @ X @ b) = Some (n, gs)"
  then obtain item where "listItems (a2 @ X @ b) = Some (n, item)"
    by (auto simp: listRunRe_def split: option.splits)
  from listItems_before [OF X refl a2 this]
  show "n \<le> length a2 \<or> (\<exists>o1 o2. js ''<ul>'' @ take n (a2 @ X @ b) @ js ''</ul>'' = o1 @ X @ o2)"
  proof
    assume "length a2 + length X \<le> n"
    then have "js ''<ul>'' @ take n (a2 @ X @ b) @ js ''</ul>''
        = (js ''<ul>'' @ a2) @ X @ (take (n - length a2 - length X) b @ js ''</ul>'')"
      by simp
    then show ?thesis by blast
  qed simp
qed

section \<open>Backticks and asterisks of a block with none around it\<close>

text \<open>
  The rules of inline code and of emphasis pair delimiters wherever they stand. Where the
  only backticks, or the only asterisks, of a text are those of the block's body, and the
  expression matches nowhere in the body, the rule changes nothing at all.
\<close>

lemma locate_pair:
  assumes eq: "P @ T @ D = w @ c # x @ c # rest" and P: "c \<notin> set P" and D: "c \<notin> set D"
  shows "\<exists>u v. T = u @ c # x @ c # v"
proof -
  from eq have "\<exists>u. T @ D = u @ c # x @ c # rest"
  proof (cases rule: append_cases)
    case (1 us)
    with P have "us = []"
      by (cases us) auto
    with 1 show ?thesis
      by (metis append_Nil)
  next
    case (2 us)
    then show ?thesis by blast
  qed
  then obtain u where "T @ D = (u @ c # x) @ c # rest"
    by auto
  then show ?thesis
  proof (cases rule: append_cases)
    case (1 vs)
    with D obtain vs' where "vs = c # vs'"
      by (cases vs) auto
    with 1 show ?thesis by auto
  next
    case (2 vs)
    with D show ?thesis by auto
  qed
qed

lemma matchesIn_suffix: "m None v \<noteq> None \<Longrightarrow> matchesIn m (u @ v)"
  by (induction u) (cases v; simp)+

lemma replaceAll_nowhere:
  assumes "\<And>p x1 x2. s = x1 @ x2 \<Longrightarrow> m p x2 = None"
  shows "replaceAll m r p s = s"
proof -
  have "replaceAll m r p (s @ []) = s @ replaceAll m r (lastOr p s) []"
    by (rule replaceAll_inside) (simp add: assms)
  moreover have "m (lastOr p s) [] = None"
    by (rule assms [of s]) simp
  ultimately show ?thesis by simp
qed

lemma inlineCodeRe_match:
  assumes "x \<noteq> []" and "0x60 \<notin> set x"
  shows "inlineCodeRe p (0x60 # x @ 0x60 # v) \<noteq> None"
proof -
  from assms(2) have "\<forall>c\<in>set x. notBacktick c"
    by (auto simp: notBacktick_def)
  then have "takeWhile notBacktick (x @ 0x60 # v) = x"
    by (simp add: takeWhile_tail notBacktick_def)
  with assms(1) show ?thesis
    by (simp add: inlineCodeRe_def js_def)
qed

lemma quiet_inlineCode:
  assumes P: "0x60 \<notin> set P" and D: "0x60 \<notin> set D" and T: "\<not> matchesIn inlineCodeRe T"
  shows "formatInlineCode (P @ T @ D) = P @ T @ D"
  unfolding formatInlineCode_def replace_def
proof (rule replaceAll_nowhere)
  fix p x1 x2 assume split: "P @ T @ D = x1 @ x2"
  show "inlineCodeRe p x2 = None"
  proof (rule ccontr)
    assume "inlineCodeRe p x2 \<noteq> None"
    then obtain n gs where "inlineCodeRe p x2 = Some (n, gs)"
      by auto
    then obtain s' rest where x2: "x2 = 0x60 # s'" and body: "takeWhile notBacktick s' \<noteq> []"
      and dw: "dropWhile notBacktick s' = 0x60 # rest"
      by (rule inlineCodeRe_Some)
    let ?x = "takeWhile notBacktick s'"
    from dw have "s' = ?x @ 0x60 # rest"
      by (metis takeWhile_dropWhile_id)
    with split x2 have "P @ T @ D = x1 @ 0x60 # ?x @ 0x60 # rest"
      by simp
    from locate_pair [OF this P D] obtain u v where "T = u @ 0x60 # ?x @ 0x60 # v"
      by auto
    moreover have "0x60 \<notin> set ?x"
      by (auto dest: set_takeWhileD simp: notBacktick_def)
    from inlineCodeRe_match [OF body this]
    have "inlineCodeRe None (0x60 # ?x @ 0x60 # v) \<noteq> None" .
    ultimately have "matchesIn inlineCodeRe T"
      by (simp add: matchesIn_suffix)
    with T show False ..
  qed
qed

lemma lazyUntil_here: "startsWith s d \<Longrightarrow> lazyUntil q d s = Some []"
  by (cases s) simp_all

lemma lazyUntil_total: "\<forall>c\<in>set x. q c \<Longrightarrow> lazyUntil q d (x @ d @ rest) \<noteq> None"
  by (induction x) (auto simp: lazyUntil_here)

lemma emphasisRe_match:
  assumes "\<forall>k\<in>set (c # ys). notLineTerminator k"
  shows "emphasisRe [0x2A] p (0x2A # c # ys @ 0x2A # v) \<noteq> None"
proof -
  from assms have "lazyUntil notLineTerminator [0x2A] (ys @ [0x2A] @ v) \<noteq> None"
    by (intro lazyUntil_total) simp
  with assms show ?thesis
    by (auto simp: emphasisRe_def)
qed

lemma quiet_emphasisRe:
  assumes P: "0x2A \<notin> set P" and D: "0x2A \<notin> set D" and T: "\<not> matchesIn (emphasisRe (js ''*'')) T"
    and line: "\<forall>c\<in>set T. \<not> isLineTerminator c" and d: "d = js ''*'' \<or> d = js ''**''"
  shows "replace (emphasisRe d) r (P @ T @ D) = P @ T @ D"
  unfolding replace_def
proof (rule replaceAll_nowhere)
  fix p x1 x2 assume split: "P @ T @ D = x1 @ x2"
  show "emphasisRe d p x2 = None"
  proof (rule ccontr)
    assume "emphasisRe d p x2 \<noteq> None"
    then obtain n gs where "emphasisRe d p x2 = Some (n, gs)"
      by auto
    then obtain c more rest where x2: "x2 = d @ c # more @ d @ rest"
      by (rule emphasisRe_Some)
    have "\<exists>y rest'. x2 = 0x2A # y @ 0x2A # rest' \<and> y \<noteq> []"
    proof (rule disjE [OF d])
      assume "d = js ''*''"
      with x2 have "x2 = 0x2A # (c # more) @ 0x2A # rest \<and> c # more \<noteq> []"
        by (simp add: js_def)
      then show ?thesis by blast
    next
      assume "d = js ''**''"
      with x2 have "x2 = 0x2A # (0x2A # c # more) @ 0x2A # (0x2A # rest) \<and> 0x2A # c # more \<noteq> []"
        by (simp add: js_def)
      then show ?thesis by blast
    qed
    then obtain y rest' where y: "x2 = 0x2A # y @ 0x2A # rest'" "y \<noteq> []"
      by blast
    with split have "P @ T @ D = x1 @ 0x2A # y @ 0x2A # rest'"
      by simp
    from locate_pair [OF this P D] obtain u v where T': "T = u @ 0x2A # y @ 0x2A # v"
      by auto
    from y(2) obtain c' more' where y': "y = c' # more'"
      by (cases y) auto
    with T' line have "\<forall>k\<in>set (c' # more'). notLineTerminator k"
      by (auto simp: notLineTerminator_def)
    from emphasisRe_match [OF this, of None v] T' y'
    have "matchesIn (emphasisRe (js ''*'')) T"
      by (simp add: matchesIn_suffix js_def)
    with T show False ..
  qed
qed

lemma quiet_formatEmphasis:
  assumes "0x2A \<notin> set P" and "0x2A \<notin> set D" and "\<not> matchesIn (emphasisRe (js ''*'')) T"
    and "\<forall>c\<in>set T. \<not> isLineTerminator c"
  shows "formatEmphasis (P @ T @ D) = P @ T @ D"
  unfolding formatEmphasis_def by (simp add: quiet_emphasisRe [OF assms])

subsection \<open>No rule before the emphasis makes an asterisk\<close>

lemma replaceAll_count:
  assumes "\<And>p s n gs. m p s = Some (n, gs) \<Longrightarrow>
     count_list (r (take n s) gs) c \<le> count_list (take n s) c"
  shows "count_list (replaceAll m r p s) c \<le> count_list s c"
proof (induction "length s" arbitrary: s p rule: less_induct)
  case less
  show ?case
  proof (cases s)
    case Nil
    show ?thesis
    proof (cases "m p []")
      case None
      with Nil show ?thesis by simp
    next
      case (Some ng)
      obtain n gs where "ng = (n, gs)" by (cases ng)
      with Some assms [of p "[]" n gs] Nil show ?thesis by simp
    qed
  next
    case (Cons x xs)
    have step: "count_list (replaceAll m r q xs) c \<le> count_list xs c" for q
      using less [of xs q] Cons by simp
    show ?thesis
    proof (cases "m p s")
      case None
      with Cons step [of "Some x"] show ?thesis by auto
    next
      case (Some ng)
      obtain n gs where ng: "ng = (n, gs)" by (cases ng)
      note bound = assms [OF Some [unfolded ng]]
      show ?thesis
      proof (cases "n = 0")
        case True
        with bound have "count_list (r [] gs) c = 0"
          by simp
        with Some ng True Cons step [of "Some x"] show ?thesis
          by auto
      next
        case False
        with Cons have "length (drop n s) < length s"
          by simp
        from less [OF this, of "Some (last (take n s))"]
        have "count_list (replaceAll m r (Some (last (take n s))) (drop n s)) c
            \<le> count_list (drop n s) c" .
        moreover have "count_list s c = count_list (take n s) c + count_list (drop n s) c"
          by (metis append_take_drop_id count_list_append)
        ultimately show ?thesis
          using Some ng False Cons bound by simp
      qed
    qed
  qed
qed

lemma count_dropWhile: "\<not> Q c \<Longrightarrow> count_list (dropWhile Q s) c = count_list s c"
  by (induction s) auto

lemma count_trim: "\<not> isWhiteSpace c \<Longrightarrow> count_list (trim s) c = count_list s c"
  by (simp add: trim_def count_dropWhile)

lemma stars_formatCodeBlocks: "count_list (formatCodeBlocks s) 0x2A \<le> count_list s 0x2A"
  unfolding formatCodeBlocks_def replace_def
proof (rule replaceAll_count)
  fix p s n gs
  assume "codeBlockRe p s = Some (n, gs)"
  then obtain lang code rest where s: "s = js ''```'' @ lang @ 0x0A # code @ js ''```'' @ rest"
    and gs: "gs = [if lang = [] then None else Some lang, Some code]"
    and d: "drop n s = rest"
    by (rule codeBlockRe_Some)
  have "take n s @ rest = (js ''```'' @ lang @ 0x0A # code @ js ''```'') @ rest"
    using s d append_take_drop_id [of n s] by simp
  then have t: "take n s = js ''```'' @ lang @ 0x0A # code @ js ''```''"
    by simp
  have "count_list (codeBlockHtml (take n s) gs) 0x2A = count_list lang 0x2A + count_list (trim code) 0x2A"
    by (simp add: gs codeBlockHtml_def group_def subst_def js_def)
  also have "\<dots> = count_list (take n s) 0x2A"
    by (simp add: t count_trim isWhiteSpace_def js_def)
  finally show "count_list (codeBlockHtml (take n s) gs) 0x2A \<le> count_list (take n s) 0x2A"
    by simp
qed

lemma stars_formatInlineCode: "count_list (formatInlineCode s) 0x2A \<le> count_list s 0x2A"
  unfolding formatInlineCode_def replace_def
proof (rule replaceAll_count)
  fix p s n gs
  assume "inlineCodeRe p s = Some (n, gs)"
  then obtain s' rest where s: "s = 0x60 # s'"
    and n: "n = length (takeWhile notBacktick s') + 2" and gs: "gs = [Some (takeWhile notBacktick s')]"
    by (rule inlineCodeRe_Some)
  have "take n s = 0x60 # take (Suc (length (takeWhile notBacktick s'))) s'"
    by (simp add: s n)
  also have "\<dots> = 0x60 # takeWhile notBacktick s' @ take 1 (dropWhile notBacktick s')"
    by (metis append_take_drop_id takeWhile_dropWhile_id take_add One_nat_def Suc_eq_plus1
        append_eq_conv_conj takeWhile_eq_take dropWhile_eq_drop)
  finally have "count_list (takeWhile notBacktick s') 0x2A \<le> count_list (take n s) 0x2A"
    by simp
  then show "count_list (around (js ''<code>'') 1 (js ''</code>'') (take n s) gs) 0x2A
      \<le> count_list (take n s) 0x2A"
    by (simp add: gs js_def)
qed

lemma stars_lineRe:
  assumes "0x2A \<notin> set opn" and "0x2A \<notin> set cls"
  shows "count_list (replace (lineRe mk) (around opn 1 cls) s) 0x2A \<le> count_list s 0x2A"
  unfolding replace_def
proof (rule replaceAll_count)
  fix p s n gs
  assume "lineRe mk p s = Some (n, gs)"
  then obtain s' where s: "s = mk @ s'"
    and n: "n = length mk + length (takeWhile notLineTerminator s')"
    and gs: "gs = [Some (takeWhile notLineTerminator s')]"
    by (rule lineRe_Some)
  have "take n s = mk @ takeWhile notLineTerminator s'"
    by (simp add: s n takeWhile_eq_take [symmetric])
  with assms show "count_list (around opn 1 cls (take n s) gs) 0x2A \<le> count_list (take n s) 0x2A"
    by (simp add: gs)
qed

lemma stars_numberedRe:
  assumes "0x2A \<notin> set opn" and "0x2A \<notin> set cls"
  shows "count_list (replace numberedRe (around opn 2 cls) s) 0x2A \<le> count_list s 0x2A"
  unfolding replace_def
proof (rule replaceAll_count)
  fix p s n gs
  assume "numberedRe p s = Some (n, gs)"
  then obtain s' where s: "s = takeWhile isDigit s @ 0x2E # 0x20 # s'"
    and n: "n = length (takeWhile isDigit s) + 2 + length (takeWhile notLineTerminator s')"
    and gs: "gs = [Some (takeWhile isDigit s), Some (takeWhile notLineTerminator s')]"
    by (rule numberedRe_Some)
  let ?num = "takeWhile isDigit s"
  have "take n (?num @ 0x2E # 0x20 # s') = ?num @ 0x2E # 0x20 # takeWhile notLineTerminator s'"
    by (simp add: n takeWhile_eq_take [symmetric])
  with s have "take n s = ?num @ 0x2E # 0x20 # takeWhile notLineTerminator s'"
    by simp
  with assms show "count_list (around opn 2 cls (take n s) gs) 0x2A \<le> count_list (take n s) 0x2A"
    by (simp add: gs)
qed

lemma stars_formatHeadings: "count_list (formatHeadings s) 0x2A \<le> count_list s 0x2A"
proof -
  have "count_list (replace (lineRe mk) (around (js [CHR ''<'', CHR ''h'', k, CHR ''>'']) 1
      (js [CHR ''<'', CHR ''/'', CHR ''h'', k, CHR ''>''])) t) 0x2A \<le> count_list t 0x2A"
    if "k \<in> {CHR ''2'', CHR ''3'', CHR ''4''}" for mk k t
    by (rule stars_lineRe) (use that in \<open>auto simp: js_def\<close>)
  from this [of "CHR ''2''"] this [of "CHR ''3''"] this [of "CHR ''4''"]
  show ?thesis
    unfolding formatHeadings_def by (meson insertI1 insertI2 order_trans)
qed

lemma stars_formatLists: "count_list (formatLists s) 0x2A \<le> count_list s 0x2A"
proof -
  have tags: "0x2A \<notin> set (js ''<li>'')" "0x2A \<notin> set (js ''</li>'')"
    by (simp_all add: js_def)
  show ?thesis
    unfolding formatLists_def
    by (rule order_trans [OF stars_numberedRe [OF tags] stars_lineRe [OF tags]])
qed

lemma stars_wrapLists: "count_list (wrapLists s) 0x2A \<le> count_list s 0x2A"
  unfolding wrapLists_def replace_def
  by (rule replaceAll_count) (simp add: js_def)

lemma stars_before_emphasis:
  "count_list (wrapLists (formatLists (formatHeadings (formatInlineCode (formatCodeBlocks s))))) 0x2A
     \<le> count_list s 0x2A"
  by (meson order_trans stars_wrapLists stars_formatLists stars_formatHeadings
      stars_formatInlineCode stars_formatCodeBlocks)

section \<open>The escaping and the fence rule on a block in a text\<close>

lemma includesStr_iff: "includesStr s p \<longleftrightarrow> (\<exists>u v. s = u @ p @ v)"
proof (induction s)
  case Nil
  then show ?case by auto
next
  case (Cons c cs)
  show ?case
  proof
    assume "includesStr (c # cs) p"
    then consider "startsWith (c # cs) p" | "includesStr cs p"
      by auto
    then show "\<exists>u v. c # cs = u @ p @ v"
    proof cases
      case 1
      then obtain v where "c # cs = [] @ p @ v"
        by (auto elim: startsWithE)
      then show ?thesis by blast
    next
      case 2
      with Cons.IH obtain u v where "cs = u @ p @ v"
        by blast
      then have "c # cs = (c # u) @ p @ v"
        by simp
      then show ?thesis by blast
    qed
  next
    assume "\<exists>u v. c # cs = u @ p @ v"
    then obtain u v where eq: "c # cs = u @ p @ v"
      by blast
    show "includesStr (c # cs) p"
    proof (cases u)
      case Nil
      with eq have "startsWith (c # cs) p"
        unfolding startsWith_iff by auto
      then show ?thesis by simp
    next
      case (Cons c' u')
      with eq have "cs = u' @ p @ v" by simp
      with Cons.IH show ?thesis by auto
    qed
  qed
qed

lemma set_trim: "set (trim s) \<subseteq> set s"
  unfolding trim_def by (auto dest!: set_dropWhileD)

lemma escapeHtml_append: "escapeHtml (u @ v) = escapeHtml u @ escapeHtml v"
  by (simp add: escapeHtml_chars)

lemma escapeChar_plain: "c \<noteq> 0x26 \<Longrightarrow> c \<noteq> 0x3C \<Longrightarrow> c \<noteq> 0x3E \<Longrightarrow> escapeChar c = [c]"
  by (simp add: escapeChar_def)

lemma escapeHtml_plain:
  "\<forall>c\<in>set s. c \<noteq> 0x26 \<and> c \<noteq> 0x3C \<and> c \<noteq> 0x3E \<Longrightarrow> escapeHtml s = s"
  unfolding escapeHtml_chars by (induction s) (simp_all add: escapeChar_plain)

lemma escapeHtml_no_lt: "0x3C \<notin> set (escapeHtml s)"
  by (auto simp: escapeHtml_chars escapeChar_def js_def)

lemma escapeHtml_absent:
  assumes "c \<notin> set s" and "c \<notin> set (js ''&amp;lt;gt;'')"
  shows "c \<notin> set (escapeHtml s)"
  using assms by (auto simp: escapeHtml_chars escapeChar_def js_def split: if_splits)

lemma escapeHtml_tick: "0x60 \<notin> set s \<Longrightarrow> 0x60 \<notin> set (escapeHtml s)"
  by (rule escapeHtml_absent) (simp_all add: js_def)

lemma escapeHtml_star: "0x2A \<notin> set s \<Longrightarrow> 0x2A \<notin> set (escapeHtml s)"
  by (rule escapeHtml_absent) (simp_all add: js_def)

lemma stars_escapeHtml: "count_list (escapeHtml s) 0x2A = count_list s 0x2A"
  unfolding escapeHtml_chars by (induction s) (simp_all add: escapeChar_def js_def)

lemma escape_ticks:
  "startsWith (escapeHtml u @ t) (replicate k 0x60) \<Longrightarrow> startsWith (u @ t) (replicate k 0x60)"
proof (induction u arbitrary: k)
  case Nil
  then show ?case by (simp add: escapeHtml_chars)
next
  case (Cons c u)
  show ?case
  proof (cases k)
    case 0
    then show ?thesis by simp
  next
    case (Suc k')
    with Cons.prems have "startsWith (escapeChar c @ escapeHtml u @ t) (0x60 # replicate k' 0x60)"
      by (simp add: escapeHtml_chars)
    then have "c = 0x60 \<and> startsWith (escapeHtml u @ t) (replicate k' 0x60)"
      by (auto simp: escapeChar_def js_def split: if_splits)
    with Cons.IH [of k'] Suc show ?thesis
      by simp
  qed
qed

lemma escape_fence:
  "includesStr (escapeHtml u @ t) (js ''```'') \<Longrightarrow> includesStr (u @ t) (js ''```'')"
proof (induction u)
  case Nil
  then show ?case by (simp add: escapeHtml_chars)
next
  case (Cons c u)
  have fence: "js ''```'' = replicate 3 0x60"
    by (simp add: js_def numeral_3_eq_3)
  from Cons.prems have "includesStr (escapeChar c @ escapeHtml u @ t) (js ''```'')"
    by (simp add: escapeHtml_chars)
  then consider "startsWith (escapeHtml (c # u) @ t) (js ''```'')"
    | "includesStr (escapeHtml u @ t) (js ''```'')"
    by (auto simp: escapeChar_def escapeHtml_chars js_def split: if_splits)
  then show ?case
  proof cases
    case 1
    then have "startsWith ((c # u) @ t) (js ''```'')"
      unfolding fence by (rule escape_ticks)
    then show ?thesis by simp
  next
    case 2
    with Cons.IH show ?thesis by simp
  qed
qed

lemma startsWith_take: "startsWith s d \<longleftrightarrow> take (length d) s = d"
  by (induction s d rule: startsWith.induct) auto

lemma lazyUntil_first:
  assumes "d \<noteq> []" and "\<not> includesStr (x @ butlast d) d" and "\<forall>c\<in>set x. q c"
  shows "lazyUntil q d (x @ d @ rest) = Some x"
  using assms(2,3)
proof (induction x)
  case Nil
  then show ?case by (simp add: lazyUntil_here)
next
  case (Cons c x)
  have "(c # x) @ d @ rest = ((c # x) @ butlast d) @ last d # rest"
    using assms(1) by simp
  moreover have "length d \<le> length ((c # x) @ butlast d)"
    using assms(1) by simp
  ultimately have "take (length d) ((c # x) @ d @ rest) = take (length d) ((c # x) @ butlast d)"
    by (simp only: take_append) simp
  with Cons.prems(1) have "\<not> startsWith (c # x @ d @ rest) d"
    by (simp add: startsWith_take)
  moreover from Cons have "lazyUntil q d (x @ d @ rest) = Some x"
    by simp
  ultimately show ?case
    using Cons.prems(2) by simp
qed

lemma codeBlockRe_at:
  assumes lang: "\<forall>c\<in>set lang. isWordChar c"
    and closing: "\<not> includesStr (code @ js ''``'') (js ''```'')"
  shows "codeBlockRe p (js ''```'' @ lang @ js ''\<newline>'' @ code @ js ''```'' @ rest) =
           Some (length (js ''```'' @ lang @ js ''\<newline>'' @ code @ js ''```''),
                 [if lang = [] then None else Some lang, Some code])"
proof -
  let ?s = "js ''```'' @ lang @ js ''\<newline>'' @ code @ js ''```'' @ rest"
  have len: "length (js ''```'') = 3" and nl: "js ''\<newline>'' = [0x0A]"
    and fence: "js ''```'' \<noteq> []" "butlast (js ''```'') = js ''``''"
    by (simp_all add: js_def)
  have d3: "drop 3 ?s = lang @ js ''\<newline>'' @ code @ js ''```'' @ rest"
    using len by simp
  have "\<not> isWordChar 0x0A"
    by (simp add: isWordChar_def isDigit_def)
  then have tw: "takeWhile isWordChar (lang @ js ''\<newline>'' @ code @ js ''```'' @ rest) = lang"
    using lang by (simp add: nl takeWhile_append2)
  have dl: "drop (3 + length lang) ?s = js ''\<newline>'' @ code @ js ''```'' @ rest"
    using len by simp
  have d1: "drop 1 (js ''\<newline>'' @ code @ js ''```'' @ rest) = code @ js ''```'' @ rest"
    by (simp add: nl)
  have lazy: "lazyUntil anyChar (js ''```'') (code @ js ''```'' @ rest) = Some code"
    using fence closing by (intro lazyUntil_first) (simp_all add: anyChar_def)
  show ?thesis
    unfolding codeBlockRe_def d3 tw Let_def dl d1 lazy
    by (simp add: len nl)
qed

lemma codeBlockRe_before:
  assumes first: "\<not> includesStr (x1 @ x2) (js ''```'')" and x2: "x2 \<noteq> []"
    and lang: "\<forall>c\<in>set lang. isWordChar c"
  shows "codeBlockRe p (x2 @ js ''```'' @ lang @ js ''\<newline>'' @ rest) = None"
proof -
  have no: "\<not> startsWith x2 (js ''```'')"
  proof
    assume "startsWith x2 (js ''```'')"
    then obtain t where "x1 @ x2 = x1 @ js ''```'' @ t"
      by (auto elim: startsWithE)
    with first show False
      by (simp add: includesStr_iff) blast
  qed
  have word: "\<not> isWordChar 0x60" "\<not> isWordChar 0x0A"
    by (simp_all add: isWordChar_def isDigit_def)
  have tw: "takeWhile isWordChar (lang @ 0x0A # rest) = lang"
    using lang word by (simp add: takeWhile_tail)
  from x2 obtain c1 t1 where 1: "x2 = c1 # t1"
    by (cases x2) auto
  show ?thesis
  proof (cases t1)
    case Nil
    with 1 word tw show ?thesis
      by (simp add: codeBlockRe_def js_def)
  next
    case (Cons c2 t2)
    note 2 = this
    show ?thesis
    proof (cases t2)
      case Nil
      with 1 2 word tw show ?thesis
        by (simp add: codeBlockRe_def js_def)
    next
      case (Cons c3 t3)
      with 1 2 no
      have "\<not> startsWith (x2 @ js ''```'' @ lang @ js ''\<newline>'' @ rest) (js ''```'')"
        by (simp add: js_def)
      then show ?thesis
        by (simp add: codeBlockRe_def)
    qed
  qed
qed

lemma replaceAll_match:
  assumes "m p s = Some (n, gs)" and "0 < n" and "s \<noteq> []"
  shows "replaceAll m r p s = r (take n s) gs @ replaceAll m r (Some (last (take n s))) (drop n s)"
  using assms by (cases s) simp_all

lemma formatCodeBlocks_at:
  assumes lang: "\<forall>c\<in>set lang. isWordChar c"
    and first: "\<not> includesStr a (js ''```'')"
    and closing: "\<not> includesStr (code @ js ''``'') (js ''```'')"
  shows "\<exists>q. formatCodeBlocks (a @ js ''```'' @ lang @ js ''\<newline>'' @ code @ js ''```'' @ b) =
           a @ fenceHtml (if lang = [] then js ''text'' else lang) (trim code)
           @ replaceAll codeBlockRe codeBlockHtml q b"
proof -
  let ?F = "js ''```'' @ lang @ js ''\<newline>'' @ code @ js ''```''"
  let ?gs = "[if lang = [] then None else Some lang, Some code]"
  have "replaceAll codeBlockRe codeBlockHtml None (a @ ?F @ b)
      = a @ replaceAll codeBlockRe codeBlockHtml (lastOr None a) (?F @ b)"
  proof (rule replaceAll_inside)
    fix x1 x2 assume "a = x1 @ x2" and "x2 \<noteq> []"
    with first codeBlockRe_before [of x1 x2 lang "lastOr None x1" "code @ js ''```'' @ b", OF _ _ lang]
    show "codeBlockRe (lastOr None x1) (x2 @ ?F @ b) = None"
      by simp
  qed
  moreover have "codeBlockRe (lastOr None a) (?F @ b) = Some (length ?F, ?gs)"
    using codeBlockRe_at [OF lang closing, of "lastOr None a" b] by simp
  then have "replaceAll codeBlockRe codeBlockHtml (lastOr None a) (?F @ b)
      = codeBlockHtml (take (length ?F) (?F @ b)) ?gs
        @ replaceAll codeBlockRe codeBlockHtml (Some (last (take (length ?F) (?F @ b))))
            (drop (length ?F) (?F @ b))"
    by (rule replaceAll_match) (simp_all add: js_def)
  moreover have "codeBlockHtml whole ?gs
      = fenceHtml (if lang = [] then js ''text'' else lang) (trim code)" for whole
    by (simp add: codeBlockHtml_def fenceHtml_def group_def subst_def)
  ultimately have "formatCodeBlocks (a @ ?F @ b)
      = a @ fenceHtml (if lang = [] then js ''text'' else lang) (trim code)
        @ replaceAll codeBlockRe codeBlockHtml (Some (last (take (length ?F) (?F @ b)))) b"
    by (simp add: formatCodeBlocks_def replace_def)
  then show ?thesis
    by (metis append_assoc)
qed

lemma replaceAll_reaches:
  "reaches m p s k \<Longrightarrow> \<exists>out q. replaceAll m r p s = out @ replaceAll m r q (drop k s)"
proof (induction m p s k rule: reaches.induct)
  case (1 m prev s)
  have "replaceAll m r prev s = [] @ replaceAll m r prev (drop 0 s)"
    by simp
  then show ?case by blast
next
  case (2 m prev k)
  then show ?case by simp
next
  case (3 m prev c cs k)
  show ?case
  proof (cases "m prev (c # cs)")
    case None
    with "3.prems" have "reaches m (Some c) cs k"
      by simp
    from "3.IH"(1) [OF None this] obtain out q where
      "replaceAll m r (Some c) cs = out @ replaceAll m r q (drop k cs)"
      by blast
    with None have "replaceAll m r prev (c # cs) = (c # out) @ replaceAll m r q (drop (Suc k) (c # cs))"
      by simp
    then show ?thesis by blast
  next
    case (Some ng)
    obtain n gs where ng: "ng = (n, gs)" by (cases ng)
    show ?thesis
    proof (cases "n = 0")
      case True
      with "3.prems" Some ng have "reaches m (Some c) cs k"
        by simp
      from "3.IH"(2) [OF Some ng [symmetric] True this] obtain out q where
        "replaceAll m r (Some c) cs = out @ replaceAll m r q (drop k cs)"
        by blast
      with Some ng True
      have "replaceAll m r prev (c # cs) = (r [] gs @ c # out) @ replaceAll m r q (drop (Suc k) (c # cs))"
        by simp
      then show ?thesis by blast
    next
      case False
      with "3.prems" Some ng have le: "n \<le> Suc k"
        and "reaches m (Some (last (take n (c # cs)))) (drop n (c # cs)) (Suc k - n)"
        by simp_all
      from "3.IH"(3) [OF Some ng [symmetric] False this(2)] obtain out q where
        "replaceAll m r (Some (last (take n (c # cs)))) (drop n (c # cs))
           = out @ replaceAll m r q (drop (Suc k - n) (drop n (c # cs)))"
        by blast
      moreover from le have "drop (Suc k - n) (drop n (c # cs)) = drop (Suc k) (c # cs)"
        by (simp only: drop_drop) simp
      ultimately have "replaceAll m r prev (c # cs)
          = (r (take n (c # cs)) gs @ out) @ replaceAll m r q (drop (Suc k) (c # cs))"
        using Some ng False by simp
      then show ?thesis by blast
    qed
  qed
qed

lemma reaches_quiet:
  assumes "\<And>x1 x2. a = x1 @ x2 \<Longrightarrow> x2 \<noteq> [] \<Longrightarrow> m (lastOr p x1) (x2 @ b) = None"
  shows "reaches m p (a @ b) (length a)"
  using assms
proof (induction a arbitrary: p)
  case Nil
  then show ?case by simp
next
  case (Cons c a)
  from Cons.prems [of "[]" "c # a"] have "m p (c # a @ b) = None"
    by simp
  moreover have "reaches m (Some c) (a @ b) (length a)"
  proof (rule Cons.IH)
    fix x1 x2 assume "a = x1 @ x2" "x2 \<noteq> []"
    with Cons.prems [of "c # x1" x2] show "m (lastOr (Some c) x1) (x2 @ b) = None"
      by simp
  qed
  ultimately show ?case by simp
qed

lemma reaches_first_fence:
  assumes first: "\<not> includesStr a (js ''```'')" and lang: "\<forall>c\<in>set lang. isWordChar c"
  shows "reaches codeBlockRe p (a @ js ''```'' @ lang @ js ''\<newline>'' @ rest) (length a)"
proof (rule reaches_quiet)
  fix x1 x2 assume "a = x1 @ x2" and "x2 \<noteq> []"
  with first codeBlockRe_before [of x1 x2 lang "lastOr p x1" rest, OF _ _ lang]
  show "codeBlockRe (lastOr p x1) (x2 @ js ''```'' @ lang @ js ''\<newline>'' @ rest) = None"
    by simp
qed

lemma formatCodeBlocks_reached:
  assumes lang: "\<forall>c\<in>set lang. isWordChar c"
    and reach: "reaches codeBlockRe None
      (a @ js ''```'' @ lang @ js ''\<newline>'' @ code @ js ''```'' @ b) (length a)"
    and closing: "\<not> includesStr (code @ js ''``'') (js ''```'')"
  shows "\<exists>out q. formatCodeBlocks (a @ js ''```'' @ lang @ js ''\<newline>'' @ code @ js ''```'' @ b) =
           out @ fenceHtml (if lang = [] then js ''text'' else lang) (trim code)
           @ replaceAll codeBlockRe codeBlockHtml q b"
proof -
  let ?F = "js ''```'' @ lang @ js ''\<newline>'' @ code @ js ''```''"
  let ?gs = "[if lang = [] then None else Some lang, Some code]"
  from replaceAll_reaches [OF reach, of codeBlockHtml] obtain out q where
    "replaceAll codeBlockRe codeBlockHtml None (a @ ?F @ b)
       = out @ replaceAll codeBlockRe codeBlockHtml q (?F @ b)"
    by auto
  moreover have "codeBlockRe q (?F @ b) = Some (length ?F, ?gs)"
    using codeBlockRe_at [OF lang closing, of q b] by simp
  then have "replaceAll codeBlockRe codeBlockHtml q (?F @ b)
      = codeBlockHtml (take (length ?F) (?F @ b)) ?gs
        @ replaceAll codeBlockRe codeBlockHtml (Some (last (take (length ?F) (?F @ b))))
            (drop (length ?F) (?F @ b))"
    by (rule replaceAll_match) (simp_all add: js_def)
  moreover have "codeBlockHtml whole ?gs
      = fenceHtml (if lang = [] then js ''text'' else lang) (trim code)" for whole
    by (simp add: codeBlockHtml_def fenceHtml_def group_def subst_def)
  ultimately have "formatCodeBlocks (a @ ?F @ b)
      = out @ fenceHtml (if lang = [] then js ''text'' else lang) (trim code)
        @ replaceAll codeBlockRe codeBlockHtml (Some (last (take (length ?F) (?F @ b)))) b"
    by (simp add: formatCodeBlocks_def replace_def)
  then show ?thesis
    by (metis append_assoc)
qed

lemma fence_has_tick: "includesStr s (js ''```'') \<Longrightarrow> 0x60 \<in> set s"
  by (auto simp: includesStr_iff js_def)

lemma codeBlocks_no_tick:
  assumes "0x60 \<notin> set s"
  shows "replaceAll codeBlockRe r q s = s"
proof (rule replaceAll_nowhere)
  fix p x1 x2 assume "s = x1 @ x2"
  with assms have "\<not> startsWith x2 (js ''```'')"
    by (cases x2) (auto simp: js_def)
  then show "codeBlockRe p x2 = None"
    by (simp add: codeBlockRe_def)
qed

lemma fenceHtml_free:
  assumes "c \<notin> set lang" and "c \<notin> set body" and "c \<notin> set (js ''<pre><code class=\"language-\"></code></pre>'')"
  shows "c \<notin> set (js ''<pre><code class=\"language-'' @ lang @ js ''\">'')"
    and "c \<notin> set (js ''</code></pre>'')" and "c \<notin> set (fenceHtml lang body)"
  using assms by (auto simp: fenceHtml_def js_def)

lemma wordChar_plain:
  assumes "isWordChar c"
  shows "c \<noteq> 0x26" "c \<noteq> 0x3C" "c \<noteq> 0x3E" "c \<noteq> 0x60" "c \<noteq> 0x2A" "\<not> isLineTerminator c"
  using assms by (auto simp: isWordChar_def isDigit_def isLineTerminator_def)

lemma language_word:
  "\<forall>c\<in>set lang. isWordChar c \<Longrightarrow> \<forall>c\<in>set (if lang = [] then js ''text'' else lang). isWordChar c"
  by (simp add: js_def isWordChar_def isDigit_def)

lemma escapeHtml_block:
  assumes "\<forall>c\<in>set lang. isWordChar c"
  shows "escapeHtml (pre @ js ''```'' @ lang @ js ''\<newline>'' @ code @ js ''```'' @ post) =
           escapeHtml pre @ js ''```'' @ lang @ js ''\<newline>'' @ escapeHtml code @ js ''```''
           @ escapeHtml post"
proof -
  have "escapeHtml lang = lang"
    using assms by (intro escapeHtml_plain) (auto dest: wordChar_plain)
  moreover have "escapeHtml (js ''```'') = js ''```''" "escapeHtml (js ''\<newline>'') = js ''\<newline>''"
    by (simp_all add: escapeHtml_plain js_def)
  ultimately show ?thesis
    by (simp add: escapeHtml_append)
qed

text \<open>The fence rule and the rule of inline code.\<close>

lemma block_after_inlineCode:
  assumes lang: "\<forall>c\<in>set lang. isWordChar c"
    and first: "\<not> includesStr pre (js ''```'') \<or>
      reaches codeBlockRe None
        (escapeHtml (pre @ js ''```'' @ lang @ js ''\<newline>'' @ code @ js ''```'' @ post))
        (length (escapeHtml pre))"
    and closing: "\<not> includesStr (code @ js ''``'') (js ''```'')"
    and line: "\<forall>c\<in>set (trim (escapeHtml code)). \<not> isLineTerminator c"
    and ticks: "0x60 \<notin> set code \<or>
      0x60 \<notin> set (pre @ post) \<and> \<not> matchesIn inlineCodeRe (trim (escapeHtml code))"
  shows "\<exists>a b. formatInlineCode (formatCodeBlocks (escapeHtml
           (pre @ js ''```'' @ lang @ js ''\<newline>'' @ code @ js ''```'' @ post))) =
           a @ fenceHtml (if lang = [] then js ''text'' else lang) (trim (escapeHtml code)) @ b"
proof -
  let ?L = "if lang = [] then js ''text'' else lang"
  let ?T = "trim (escapeHtml code)"
  let ?X = "fenceHtml ?L ?T"
  let ?text = "pre @ js ''```'' @ lang @ js ''\<newline>'' @ code @ js ''```'' @ post"
  have closing': "\<not> includesStr (escapeHtml code @ js ''``'') (js ''```'')"
    using closing escape_fence [of code "js ''``''"] by auto
  have word: "\<forall>c\<in>set ?L. isWordChar c"
    using lang by (rule language_word)
  have "\<forall>c\<in>set ?T. c \<noteq> 0x3C \<and> \<not> isLineTerminator c"
    using line set_trim [of "escapeHtml code"] escapeHtml_no_lt [of code] by auto
  with word have inert: "inertBlock ?X"
    by (rule fenceHtml_inert)
  from ticks show ?thesis
  proof
    assume "0x60 \<notin> set code"
    then have "0x60 \<notin> set ?T"
      using set_trim [of "escapeHtml code"] escapeHtml_tick [of code] by auto
    moreover have "0x60 \<notin> set ?L"
      using word by (auto dest: wordChar_plain)
    ultimately have tick: "0x60 \<notin> set ?X"
      by (intro fenceHtml_free) (simp_all add: js_def)
    have "reaches codeBlockRe None
        (escapeHtml pre @ js ''```'' @ lang @ js ''\<newline>'' @ escapeHtml code @ js ''```''
         @ escapeHtml post) (length (escapeHtml pre))"
    proof (rule disjE [OF first])
      assume "\<not> includesStr pre (js ''```'')"
      with escape_fence [of pre "[]"] have "\<not> includesStr (escapeHtml pre) (js ''```'')"
        by auto
      then show ?thesis
        using lang by (rule reaches_first_fence)
    next
      assume "reaches codeBlockRe None (escapeHtml ?text) (length (escapeHtml pre))"
      then show ?thesis
        by (simp only: escapeHtml_block [OF lang])
    qed
    from formatCodeBlocks_reached [OF lang this closing']
    obtain out b1 where "formatCodeBlocks (escapeHtml ?text) = out @ ?X @ b1"
      by (auto simp: escapeHtml_block [OF lang])
    with keeps_inlineCode [OF inert tick, of out b1] show ?thesis
      by simp
  next
    assume outside: "0x60 \<notin> set (pre @ post) \<and> \<not> matchesIn inlineCodeRe ?T"
    then have pre: "0x60 \<notin> set (escapeHtml pre)" and post: "0x60 \<notin> set (escapeHtml post)"
      by (simp_all add: escapeHtml_tick)
    from pre have "\<not> includesStr (escapeHtml pre) (js ''```'')"
      by (auto dest: fence_has_tick)
    from formatCodeBlocks_at [OF lang this closing', of "escapeHtml post"]
    obtain q where s1: "formatCodeBlocks (escapeHtml ?text)
        = escapeHtml pre @ ?X @ replaceAll codeBlockRe codeBlockHtml q (escapeHtml post)"
      by (auto simp: escapeHtml_block [OF lang])
    let ?P = "escapeHtml pre @ js ''<pre><code class=\"language-'' @ ?L @ js ''\">''"
    let ?D = "js ''</code></pre>'' @ escapeHtml post"
    from s1 post have "formatCodeBlocks (escapeHtml ?text) = ?P @ ?T @ ?D"
      by (simp add: codeBlocks_no_tick fenceHtml_def)
    moreover have "0x60 \<notin> set ?P" "0x60 \<notin> set ?D"
      using pre post word by (auto simp: js_def dest: wordChar_plain)
    then have "formatInlineCode (?P @ ?T @ ?D) = ?P @ ?T @ ?D"
      using outside by (intro quiet_inlineCode) simp_all
    ultimately have "formatInlineCode (formatCodeBlocks (escapeHtml ?text))
        = escapeHtml pre @ ?X @ escapeHtml post"
      by (simp add: fenceHtml_def)
    then show ?thesis by blast
  qed
qed

lemma stars_outside:
  assumes lang: "\<forall>c\<in>set lang. isWordChar c" and out: "0x2A \<notin> set (pre @ post)"
    and eq: "wrapLists (formatLists (formatHeadings (formatInlineCode (formatCodeBlocks (escapeHtml
      (pre @ js ''```'' @ lang @ js ''\<newline>'' @ code @ js ''```'' @ post))))))
      = a @ fenceHtml L (trim (escapeHtml code)) @ b"
  shows "0x2A \<notin> set a \<and> 0x2A \<notin> set b"
proof -
  let ?text = "pre @ js ''```'' @ lang @ js ''\<newline>'' @ code @ js ''```'' @ post"
  let ?T = "trim (escapeHtml code)"
  have "0x2A \<notin> set lang"
    using lang by (auto dest: wordChar_plain)
  with out have "count_list ?text 0x2A = count_list code 0x2A"
    by (simp add: js_def)
  moreover have "count_list ?T 0x2A = count_list code 0x2A"
    by (simp add: count_trim stars_escapeHtml isWhiteSpace_def)
  moreover have "count_list (a @ fenceHtml L ?T @ b) 0x2A \<le> count_list ?text 0x2A"
    using stars_before_emphasis [of "escapeHtml ?text"] eq by (simp only: stars_escapeHtml)
  moreover have "count_list ?T 0x2A \<le> count_list (fenceHtml L ?T) 0x2A"
    by (simp add: fenceHtml_def)
  ultimately have "count_list a 0x2A = 0 \<and> count_list b 0x2A = 0"
    by simp
  then show ?thesis
    by (simp add: count_list_0_iff)
qed

lemma block_after_emphasis:
  assumes lang: "\<forall>c\<in>set lang. isWordChar c"
    and line: "\<forall>c\<in>set (trim (escapeHtml code)). \<not> isLineTerminator c"
    and stars: "0x2A \<notin> set code \<or>
      0x2A \<notin> set (pre @ post) \<and> \<not> matchesIn (emphasisRe (js ''*'')) (trim (escapeHtml code))"
    and eq: "wrapLists (formatLists (formatHeadings (formatInlineCode (formatCodeBlocks (escapeHtml
      (pre @ js ''```'' @ lang @ js ''\<newline>'' @ code @ js ''```'' @ post))))))
      = a @ fenceHtml (if lang = [] then js ''text'' else lang) (trim (escapeHtml code)) @ b"
  shows "\<exists>a' b'. formatEmphasis
           (a @ fenceHtml (if lang = [] then js ''text'' else lang) (trim (escapeHtml code)) @ b) =
           a' @ fenceHtml (if lang = [] then js ''text'' else lang) (trim (escapeHtml code)) @ b'"
proof -
  let ?L = "if lang = [] then js ''text'' else lang"
  let ?T = "trim (escapeHtml code)"
  let ?X = "fenceHtml ?L ?T"
  have word: "\<forall>c\<in>set ?L. isWordChar c"
    using lang by (rule language_word)
  have "\<forall>c\<in>set ?T. c \<noteq> 0x3C \<and> \<not> isLineTerminator c"
    using line set_trim [of "escapeHtml code"] escapeHtml_no_lt [of code] by auto
  with word have inert: "inertBlock ?X"
    by (rule fenceHtml_inert)
  from stars show ?thesis
  proof
    assume "0x2A \<notin> set code"
    then have "0x2A \<notin> set ?T"
      using set_trim [of "escapeHtml code"] escapeHtml_star [of code] by auto
    moreover have "0x2A \<notin> set ?L"
      using word by (auto dest: wordChar_plain)
    ultimately have "0x2A \<notin> set ?X"
      by (intro fenceHtml_free) (simp_all add: js_def)
    with inert show ?thesis
      by (rule keeps_formatEmphasis)
  next
    assume outside: "0x2A \<notin> set (pre @ post) \<and> \<not> matchesIn (emphasisRe (js ''*'')) ?T"
    with stars_outside [OF lang _ eq] have ab: "0x2A \<notin> set a" "0x2A \<notin> set b"
      by simp_all
    let ?P = "a @ js ''<pre><code class=\"language-'' @ ?L @ js ''\">''"
    let ?D = "js ''</code></pre>'' @ b"
    have "0x2A \<notin> set ?P" "0x2A \<notin> set ?D"
      using ab word by (auto simp: js_def dest: wordChar_plain)
    then have "formatEmphasis (?P @ ?T @ ?D) = ?P @ ?T @ ?D"
      using outside line by (intro quiet_formatEmphasis) simp_all
    then have "formatEmphasis (a @ ?X @ b) = a @ ?X @ b"
      by (simp add: fenceHtml_def)
    then show ?thesis by blast
  qed
qed

section \<open>What a well-tagged text contains\<close>

lemma wt_lt:
  assumes "wellTagged (u @ 0x3C # v)"
  shows "\<exists>t r. isTag t \<and> 0x3C # v = t @ r"
proof -
  have "boundaryChar 0x3C"
    by (simp add: boundaryChar_def isWordChar_def isDigit_def)
  with assms have "wellTagged (0x3C # v)"
    using wt_split [of u "0x3C" v] by simp
  then show ?thesis
  proof (cases rule: wellTagged.cases)
    case (token t s)
    then have "t \<notin> set entities"
      by (auto simp: entities_def js_def)
    with token show ?thesis
      unfolding isToken_def by metis
  qed simp_all
qed

lemma wt_amp:
  assumes "wellTagged (u @ 0x26 # v)"
  shows "\<exists>e r. e \<in> set entities \<and> 0x26 # v = e @ r"
proof -
  have "boundaryChar 0x26"
    by (simp add: boundaryChar_def isWordChar_def isDigit_def)
  with assms have "wellTagged (0x26 # v)"
    using wt_split [of u "0x26" v] by simp
  then show ?thesis
  proof (cases rule: wellTagged.cases)
    case (token t s)
    then have "\<not> isTag t"
      by (auto simp: isTag_def fixedTags_def isCodeTag_iff codeTag_def js_def)
    with token show ?thesis
      unfolding isToken_def by metis
  qed simp_all
qed

lemma wt_gt_aux:
  "wellTagged w \<Longrightarrow> w = u @ 0x3E # v \<Longrightarrow> \<exists>r t. isTag t \<and> u @ [0x3E] = r @ t"
proof (induction w arbitrary: u rule: wellTagged.induct)
  case empty
  then show ?case by simp
next
  case (plain c s)
  then obtain u' where u: "u = c # u'" and "s = u' @ 0x3E # v"
    by (cases u) auto
  with plain.IH [of u'] obtain r t where "isTag t" "u' @ [0x3E] = r @ t"
    by blast
  with u have "isTag t \<and> u @ [0x3E] = (c # r) @ t"
    by simp
  then show ?case by blast
next
  case (token t s)
  from token.hyps obtain h b e where t: "t = h # b @ [e]"
    and b: "\<forall>c\<in>set b. \<not> boundaryChar c \<and> c \<noteq> 0x3E \<and> c \<noteq> 0x3B"
    and h: "h = 0x3C \<or> h = 0x26"
    using token_shape unfolding tokenShape_def by blast
  from token.prems obtain x where
    "(t = u @ x \<and> x @ s = 0x3E # v) \<or> (t @ x = u \<and> s = x @ 0x3E # v)"
    by (auto simp: append_eq_append_conv2)
  then show ?case
  proof
    assume 1: "t = u @ x \<and> x @ s = 0x3E # v"
    show ?thesis
    proof (cases x)
      case Nil
      with 1 token.IH [of "[]"] obtain r t' where "isTag t'" "[0x3E] = r @ t'"
        by auto
      then have "isTag t' \<and> u @ [0x3E] = (u @ r) @ t'"
        by simp
      then show ?thesis by blast
    next
      case (Cons c x')
      with 1 have tu: "t = u @ 0x3E # x'"
        by auto
      have "x' = []"
      proof (rule ccontr)
        assume "x' \<noteq> []"
        then obtain ys e' where "x' = ys @ [e']"
          by (metis rev_exhaust)
        with tu t have "(h # b) @ [e] = (u @ 0x3E # ys) @ [e']"
          by simp
        then have "h # b = u @ 0x3E # ys"
          by (simp only: append1_eq_conv)
        then have "0x3E \<in> set (h # b)"
          by (metis in_set_conv_decomp)
        with b h show False
          by auto
      qed
      with tu have tag: "t = u @ [0x3E]"
        by simp
      then have "t \<notin> set entities"
        by (auto simp: entities_def js_def)
      with token.hyps have "isTag t"
        by (simp add: isToken_def)
      with tag have "isTag t \<and> u @ [0x3E] = [] @ t"
        by simp
      then show ?thesis by blast
    qed
  next
    assume 2: "t @ x = u \<and> s = x @ 0x3E # v"
    with token.IH [of x] obtain r t' where "isTag t'" "x @ [0x3E] = r @ t'"
      by blast
    with 2 have "isTag t' \<and> u @ [0x3E] = (t @ r) @ t'"
      by auto
    then show ?thesis by blast
  qed
qed

lemma wt_gt: "wellTagged (u @ 0x3E # v) \<Longrightarrow> \<exists>r t. isTag t \<and> u @ [0x3E] = r @ t"
  by (rule wt_gt_aux) auto

lemma wt_no_script: "wellTagged s \<Longrightarrow> \<not> includesStr s (js ''<script>'')"
proof
  assume wt: "wellTagged s" and "includesStr s (js ''<script>'')"
  then obtain u v where "s = u @ js ''<script>'' @ v"
    by (auto simp: includesStr_iff)
  then have "s = u @ 0x3C # (js ''script>'' @ v)"
    by (simp add: js_def)
  with wt obtain t r where "isTag t" and "0x3C # (js ''script>'' @ v) = t @ r"
    using wt_lt by blast
  then show False
    by (auto simp: isTag_def fixedTags_def isCodeTag_iff codeTag_def js_def)
qed

section \<open>Facts about the helpers\<close>

lemma trim_nonempty_arg: "trim s \<noteq> [] \<Longrightarrow> s \<noteq> []"
  by (auto simp: trim_def)

lemma trim_all_whitespace: "\<forall>c \<in> set s. isWhiteSpace c \<Longrightarrow> trim s = []"
  by (auto simp: trim_def dest: set_dropWhileD)

lemma trim_hi: "trim (js ''hi'') \<noteq> []"
  by code_simp

lemma constructor_idle: "\<not> loading constructor"
  by (simp add: constructor_def)

section \<open>The life of a request\<close>

text \<open>
  C4. A call that passes the two guards (no call in flight, a prompt that is not blank)
  leaves \<open>loading\<close> false when it settles, whatever the network did: success, an error
  reported by the service, a failed transport, any exception. The next call with a prompt
  that is not blank is then accepted: it sends its request instead of answering the busy
  error.
\<close>

theorem callAgent_releases_loading:
  assumes "\<not> loading this" and "trim prompt \<noteq> []"
  shows "\<not> loading (fst (snd (callAgent this prompt agent outcome))) \<and>
         (\<forall>prompt' agent'. trim prompt' \<noteq> [] \<longrightarrow>
            (\<exists>req. fst (callAgent_enter (fst (snd (callAgent this prompt agent outcome)))
                          prompt' agent') = Awaiting req))"
proof -
  from assms have "prompt \<noteq> []"
    by (auto dest: trim_nonempty_arg)
  with assms show ?thesis
    by (auto simp: callAgent_def callAgent_enter_def callAgent_settle_def dest: trim_nonempty_arg)
qed

theorem callAgent_releases_loading_witness:
  "\<not> loading constructor \<and> trim (js ''hi'') \<noteq> [] \<and>
   \<not> loading (fst (snd (callAgent constructor (js ''hi'') (js ''quizTutor'') Rejected))) \<and>
   (\<exists>req. fst (callAgent_enter
                 (fst (snd (callAgent constructor (js ''hi'') (js ''quizTutor'') Rejected)))
                 (js ''hi'') (js ''quizTutor'')) = Awaiting req)"
  using callAgent_releases_loading [OF constructor_idle trim_hi, of "js ''quizTutor''" Rejected]
    constructor_idle trim_hi
  by blast

text \<open>
  C5. While a call is in flight (\<open>loading\<close> is true) a call answers the busy error before
  its first \<^verbatim>\<open>await\<close>, sends no request and leaves the client as it was.
\<close>

theorem callAgent_busy:
  assumes "loading this"
  shows "callAgent_enter this prompt agent =
           (Returned \<lparr>response = String [],
                      error = String (js ''Already processing a request. Please wait.'')\<rparr>, this) \<and>
         callAgent this prompt agent outcome =
           (\<lparr>response = String [],
             error = String (js ''Already processing a request. Please wait.'')\<rparr>, this, [])"
  using assms by (simp add: callAgent_def callAgent_enter_def busyError_def)

theorem callAgent_busy_witness:
  "loading (snd (callAgent_enter constructor (js ''hi'') (js ''quizTutor''))) \<and>
   callAgent (snd (callAgent_enter constructor (js ''hi'') (js ''quizTutor'')))
       (js ''hi'') (js ''quizTutor'') Rejected =
     (\<lparr>response = String [],
       error = String (js ''Already processing a request. Please wait.'')\<rparr>,
      snd (callAgent_enter constructor (js ''hi'') (js ''quizTutor'')), [])"
proof -
  have "js ''hi'' \<noteq> []"
    using trim_hi by (auto dest: trim_nonempty_arg)
  then have busy: "loading (snd (callAgent_enter constructor (js ''hi'') (js ''quizTutor'')))"
    using trim_hi by (simp add: callAgent_enter_def constructor_def)
  from callAgent_busy [OF busy] busy show ?thesis
    by blast
qed

text \<open>
  C6, as the code has it. When no call is in flight, a prompt that is empty or made of
  white space only is answered with the empty-prompt error; no request is sent and the
  client is unchanged. (While a call is in flight the busy guard comes first.)
\<close>

theorem callAgent_blank_prompt:
  assumes "\<not> loading this" and "\<forall>c \<in> set prompt. isWhiteSpace c"
  shows "callAgent this prompt agent outcome =
           (\<lparr>response = String [],
             error = String (js ''Please enter a prompt or question.'')\<rparr>, this, [])"
proof -
  from assms(2) have "trim prompt = []"
    by (rule trim_all_whitespace)
  with assms(1) show ?thesis
    by (simp add: callAgent_def callAgent_enter_def emptyPromptError_def)
qed

theorem callAgent_blank_prompt_witness:
  "\<not> loading constructor \<and> list_all isWhiteSpace (js '' '') \<and>
   callAgent constructor (js '' '') (js ''quizTutor'') Rejected =
     (\<lparr>response = String [],
       error = String (js ''Please enter a prompt or question.'')\<rparr>, constructor, [])"
proof -
  have blank: "\<forall>c \<in> set (js '' ''). isWhiteSpace c"
    by (simp add: js_def isWhiteSpace_def)
  from callAgent_blank_prompt [OF constructor_idle blank] constructor_idle blank show ?thesis
    by (simp add: list_all_iff)
qed

text \<open>
  C6, as stated, fails on a client with a call in flight: the empty prompt gets the busy
  error there, not the empty-prompt error.
\<close>

theorem callAgent_blank_prompt_counterexample:
  "fst (callAgent (constructor\<lparr>loading := True\<rparr>) [] (js ''quizTutor'') Rejected) =
     \<lparr>response = String [],
      error = String (js ''Already processing a request. Please wait.'')\<rparr> \<and>
   fst (callAgent (constructor\<lparr>loading := True\<rparr>) [] (js ''quizTutor'') Rejected) \<noteq>
     \<lparr>response = String [], error = String (js ''Please enter a prompt or question.'')\<rparr>"
  by (simp add: callAgent_def callAgent_enter_def busyError_def js_def)

text \<open>
  C7, as the code has it. When the status is in the 200s, the body parses and the two
  property reads succeed (the parsed body is not \<^verbatim>\<open>null\<close>): a truthy \<^verbatim>\<open>error\<close> field is
  handed on as it is, with an empty response; otherwise the result has the \<^verbatim>\<open>response\<close>
  field, or the text "No response received" when that field is absent or falsy, and an
  empty error.
\<close>

theorem callAgent_success:
  assumes "\<not> loading this" and "trim prompt \<noteq> []" and "ok status"
    and "getProp data (js ''error'') = Inr err"
    and "getProp data (js ''response'') = Inr resp"
  shows "fst (callAgent this prompt agent (Responded status (Parsed data))) =
           (if truthy err then \<lparr>response = String [], error = err\<rparr>
            else \<lparr>response = (if truthy resp then resp
                               else String (js ''No response received'')),
                  error = String []\<rparr>)"
proof -
  from assms have "prompt \<noteq> []"
    by (auto dest: trim_nonempty_arg)
  with assms show ?thesis
    by (simp add: callAgent_def callAgent_enter_def callAgent_settle_def tryBlock_def
        noResponse_def)
qed

theorem callAgent_success_witness:
  "\<not> loading constructor \<and> trim (js ''hi'') \<noteq> [] \<and> ok 200 \<and>
   getProp (Object [(js ''response'', String (js ''Hello''))]) (js ''error'') = Inr Undefined \<and>
   getProp (Object [(js ''response'', String (js ''Hello''))]) (js ''response'') =
     Inr (String (js ''Hello'')) \<and>
   fst (callAgent constructor (js ''hi'') (js ''quizTutor'')
          (Responded 200 (Parsed (Object [(js ''response'', String (js ''Hello''))])))) =
     \<lparr>response = String (js ''Hello''), error = String []\<rparr>"
proof -
  have status: "ok 200"
    by (simp add: ok_def)
  have err: "getProp (Object [(js ''response'', String (js ''Hello''))]) (js ''error'')
               = Inr Undefined"
    by (simp add: js_def)
  have resp: "getProp (Object [(js ''response'', String (js ''Hello''))]) (js ''response'')
                = Inr (String (js ''Hello''))"
    by simp
  have hello: "js ''Hello'' \<noteq> []"
    by (simp add: js_def)
  from callAgent_success [OF constructor_idle trim_hi status err resp, of "js ''quizTutor''"]
    constructor_idle trim_hi status err resp hello
  show ?thesis
    by simp
qed

text \<open>
  C7, as stated, fails on a body that parses to \<^verbatim>\<open>null\<close>: it has no error field and no
  response, yet the result is not "No response received" with an empty error. Reading
  \<^verbatim>\<open>data.error\<close> throws, and the \<^verbatim>\<open>catch\<close> answers the connection error.
\<close>

theorem callAgent_null_body_counterexample:
  "ok 200 \<and>
   fst (callAgent constructor (js ''hi'') (js ''quizTutor'') (Responded 200 (Parsed Null))) =
     \<lparr>response = String [],
      error = String (js ''Unable to connect to AI service. Please check your connection and try again.'')\<rparr> \<and>
   fst (callAgent constructor (js ''hi'') (js ''quizTutor'') (Responded 200 (Parsed Null))) \<noteq>
     \<lparr>response = String (js ''No response received''), error = String []\<rparr>"
proof -
  have "js ''hi'' \<noteq> []" and "js ''No response received'' \<noteq> []"
    by (simp_all add: js_def)
  with trim_hi show ?thesis
    by (simp add: callAgent_def callAgent_enter_def callAgent_settle_def tryBlock_def
        constructor_def ok_def connectError_def)
qed

text \<open>
  C8. When the transport fails (\<^verbatim>\<open>fetch\<close> rejects, the status is outside the 200s, or the
  body is not JSON) the result is the fixed connection error with an empty response: it
  does not depend on the exception, whose text never reaches the caller.
\<close>

theorem callAgent_transport_failure:
  assumes "\<not> loading this" and "trim prompt \<noteq> []"
    and "outcome = Rejected \<or>
         (\<exists>status body. outcome = Responded status body \<and> (\<not> ok status \<or> body = Malformed))"
  shows "fst (callAgent this prompt agent outcome) =
           \<lparr>response = String [],
            error = String (js ''Unable to connect to AI service. Please check your connection and try again.'')\<rparr>"
proof -
  from assms have "prompt \<noteq> []"
    by (auto dest: trim_nonempty_arg)
  with assms show ?thesis
    by (auto simp: callAgent_def callAgent_enter_def callAgent_settle_def tryBlock_def
        connectError_def)
qed

theorem callAgent_transport_failure_witness:
  "\<not> loading constructor \<and> trim (js ''hi'') \<noteq> [] \<and> \<not> ok 500 \<and>
   fst (callAgent constructor (js ''hi'') (js ''quizTutor'') Rejected) =
     \<lparr>response = String [],
      error = String (js ''Unable to connect to AI service. Please check your connection and try again.'')\<rparr> \<and>
   fst (callAgent constructor (js ''hi'') (js ''quizTutor'')
          (Responded 500 (Parsed (Object [(js ''response'', String (js ''Hello''))])))) =
     \<lparr>response = String [],
      error = String (js ''Unable to connect to AI service. Please check your connection and try again.'')\<rparr> \<and>
   fst (callAgent constructor (js ''hi'') (js ''quizTutor'') (Responded 200 Malformed)) =
     \<lparr>response = String [],
      error = String (js ''Unable to connect to AI service. Please check your connection and try again.'')\<rparr>"
proof -
  have status: "\<not> ok 500"
    by (simp add: ok_def)
  note failure = callAgent_transport_failure [OF constructor_idle trim_hi]
  from failure [of Rejected]
    failure [of "Responded 500 (Parsed (Object [(js ''response'', String (js ''Hello''))]))"]
    failure [of "Responded 200 Malformed"]
    constructor_idle trim_hi status
  show ?thesis
    by simp
qed

section \<open>The formatter on the examples of the specification\<close>

text \<open>
  C2, as the code has it. The two bullets become one list with no paragraph around it, and
  the newline between them becomes a line break between the two items.
\<close>

theorem format_bullets:
  "formatResponse (js ''- a\<newline>- b'') = js ''<ul><li>a</li><br><li>b</li></ul>''"
  by code_simp

text \<open>C2, as stated, fails: the two items are not adjacent in the output.\<close>

theorem format_bullets_counterexample:
  "formatResponse (js ''- a\<newline>- b'') \<noteq> js ''<ul><li>a</li><li>b</li></ul>''"
  by code_simp

text \<open>
  C3, as the code has it. The fenced block becomes the \<^verbatim>\<open>pre\<close> element, and the paragraph
  that is wrapped around every result stays around it.
\<close>

theorem format_fence:
  "formatResponse (js ''```js\<newline>code();\<newline>```'') =
     js ''<p><pre><code class=\"language-js\">code();</code></pre></p>''"
  by code_simp

text \<open>C3, as stated, fails: the output is not the bare \<^verbatim>\<open>pre\<close> element.\<close>

theorem format_fence_counterexample:
  "formatResponse (js ''```js\<newline>code();\<newline>```'') \<noteq>
     js ''<pre><code class=\"language-js\">code();</code></pre>''"
  by code_simp

text \<open>
  C10. Inline code is not protected from the later rules: the text between two single
  backticks is rewritten by the emphasis rule, which leaves an \<^verbatim>\<open>em\<close> element inside the
  \<^verbatim>\<open>code\<close> element.
\<close>

theorem format_inline_code_emphasis:
  "formatResponse (js ''`*x*`'') = js ''<p><code><em>x</em></code></p>'' \<and>
   includesStr (formatResponse (js ''`*x*`'')) (js ''<code><em>x</em></code>'')"
  by code_simp

section \<open>Fenced blocks, and what the escaping guarantees\<close>

text \<open>
  C1, as the code has it. Take a text with a fenced block in it: a text before the block;
  then three backticks, a language tag of word characters (or none), a newline, the
  content, and the first three backticks in a row behind the newline; then any text. The
  body is the content, escaped and trimmed. Suppose that
  \<^item> the text before the block has no three backticks in a row or, more generally, the
    scan of the fence rule over the escaped text comes to the opening fence of the block
    (no earlier block runs over it);
  \<^item> the body has no line terminator;
  \<^item> the content has no backtick, or else the text around the block has none and the
    expression of inline code matches nowhere in the body;
  \<^item> the content has no asterisk, or else the text around the block has none and the
    expression of emphasis matches nowhere in the body.

  Then the output contains the \<^verbatim>\<open>pre\<close> and \<^verbatim>\<open>code\<close> elements around the body, with the
  language tag (or \<^verbatim>\<open>text\<close>) in the class and the body as it is. Neither \<^verbatim>\<open>&\<close>, \<^verbatim>\<open><\<close> and
  \<^verbatim>\<open>>\<close> in the content (they are escaped and nothing more), nor a lone backtick or asterisk,
  nor text around the block, nor an earlier block stands in the way.
\<close>

theorem fenced_block_kept:
  assumes lang: "\<forall>c\<in>set lang. isWordChar c"
    and first: "\<not> includesStr pre (js ''```'') \<or>
      reaches codeBlockRe None
        (escapeHtml (pre @ js ''```'' @ lang @ js ''\<newline>'' @ code @ js ''```'' @ post))
        (length (escapeHtml pre))"
    and closing: "\<not> includesStr (code @ js ''``'') (js ''```'')"
    and line: "\<forall>c\<in>set (trim (escapeHtml code)). \<not> isLineTerminator c"
    and ticks: "0x60 \<notin> set code \<or>
      0x60 \<notin> set (pre @ post) \<and> \<not> matchesIn inlineCodeRe (trim (escapeHtml code))"
    and stars: "0x2A \<notin> set code \<or>
      0x2A \<notin> set (pre @ post) \<and> \<not> matchesIn (emphasisRe (js ''*'')) (trim (escapeHtml code))"
  shows "includesStr
           (formatResponse (pre @ js ''```'' @ lang @ js ''\<newline>'' @ code @ js ''```'' @ post))
           (js ''<pre><code class=\"language-'' @ (if lang = [] then js ''text'' else lang)
            @ js ''\">'' @ trim (escapeHtml code) @ js ''</code></pre>'')"
proof -
  let ?text = "pre @ js ''```'' @ lang @ js ''\<newline>'' @ code @ js ''```'' @ post"
  let ?L = "if lang = [] then js ''text'' else lang"
  let ?T = "trim (escapeHtml code)"
  let ?X = "fenceHtml ?L ?T"
  have word: "\<forall>c\<in>set ?L. isWordChar c"
    using lang by (rule language_word)
  have "\<forall>c\<in>set ?T. c \<noteq> 0x3C \<and> \<not> isLineTerminator c"
    using line set_trim [of "escapeHtml code"] escapeHtml_no_lt [of code] by auto
  with word have inert: "inertBlock ?X"
    by (rule fenceHtml_inert)
  from block_after_inlineCode [OF lang first closing line ticks]
  obtain a2 b2 where s2: "formatInlineCode (formatCodeBlocks (escapeHtml ?text)) = a2 @ ?X @ b2"
    by blast
  from keeps_formatHeadings [OF inert] obtain a3 b3 where
    s3: "formatHeadings (a2 @ ?X @ b2) = a3 @ ?X @ b3"
    by blast
  from keeps_formatLists [OF inert] obtain a4 b4 where
    s4: "formatLists (a3 @ ?X @ b3) = a4 @ ?X @ b4"
    by blast
  from keeps_wrapLists [OF inert] obtain a5 b5 where
    s5: "wrapLists (a4 @ ?X @ b4) = a5 @ ?X @ b5"
    by blast
  from s2 s3 s4 s5 have "wrapLists (formatLists (formatHeadings (formatInlineCode
      (formatCodeBlocks (escapeHtml ?text))))) = a5 @ ?X @ b5"
    by simp
  from block_after_emphasis [OF lang line stars this] obtain a6 b6 where
    s6: "formatEmphasis (a5 @ ?X @ b5) = a6 @ ?X @ b6"
    by blast
  from keeps_formatLineBreaks [OF inert] obtain a7 b7 where
    s7: "formatLineBreaks (a6 @ ?X @ b6) = a7 @ ?X @ b7"
    by blast
  from keeps_wrapParagraph obtain a8 b8 where
    s8: "wrapParagraph (a7 @ ?X @ b7) = a8 @ ?X @ b8"
    by blast
  from keeps_cleanUp [OF inert] obtain a9 b9 where
    s9: "cleanUp (a8 @ ?X @ b8) = a9 @ ?X @ b9"
    by blast
  have "?text \<noteq> []"
    by (simp add: js_def)
  then have "formatResponse ?text = a9 @ ?X @ b9"
    by (simp only: formatResponse_def markup_def s2 s3 s4 s5 s6 s7 s8 s9 if_False)
  then have "includesStr (formatResponse ?text) ?X"
    by (simp only: includesStr_iff) blast
  then show ?thesis
    by (simp add: fenceHtml_def)
qed

theorem fenced_block_kept_witness:
  "list_all isWordChar (js ''py'') \<and>
   \<not> includesStr (js ''See: '') (js ''```'') \<and>
   \<not> includesStr (js ''  if a < b && c * 2 > `d:\<newline>'' @ js ''``'') (js ''```'') \<and>
   list_all (\<lambda>c. \<not> isLineTerminator c) (trim (escapeHtml (js ''  if a < b && c * 2 > `d:\<newline>''))) \<and>
   0x60 \<in> set (js ''  if a < b && c * 2 > `d:\<newline>'') \<and>
   0x60 \<notin> set (js ''See: '' @ js '' done'') \<and>
   \<not> matchesIn inlineCodeRe (trim (escapeHtml (js ''  if a < b && c * 2 > `d:\<newline>''))) \<and>
   0x2A \<in> set (js ''  if a < b && c * 2 > `d:\<newline>'') \<and>
   0x2A \<notin> set (js ''See: '' @ js '' done'') \<and>
   \<not> matchesIn (emphasisRe (js ''*'')) (trim (escapeHtml (js ''  if a < b && c * 2 > `d:\<newline>''))) \<and>
   includesStr
     (formatResponse (js ''See: '' @ js ''```'' @ js ''py'' @ js ''\<newline>''
        @ js ''  if a < b && c * 2 > `d:\<newline>'' @ js ''```'' @ js '' done''))
     (js ''<pre><code class=\"language-py\">if a &lt; b &amp;&amp; c * 2 &gt; `d:</code></pre>'') \<and>
   \<not> includesStr (js ''# *T* `q` '') (js ''```'') \<and>
   0x60 \<notin> set (js ''x<y>\<newline>'') \<and> 0x2A \<notin> set (js ''x<y>\<newline>'') \<and>
   list_all (\<lambda>c. \<not> isLineTerminator c) (trim (escapeHtml (js ''x<y>\<newline>''))) \<and>
   includesStr
     (formatResponse (js ''# *T* `q` '' @ js ''```'' @ [] @ js ''\<newline>''
        @ js ''x<y>\<newline>'' @ js ''```'' @ js '' and *more* `code`''))
     (js ''<pre><code class=\"language-text\">x&lt;y&gt;</code></pre>'') \<and>
   reaches codeBlockRe None
     (escapeHtml (js ''```js\<newline>a<b\<newline>``` and '' @ js ''```'' @ js ''py'' @ js ''\<newline>''
        @ js ''b\<newline>'' @ js ''```'' @ []))
     (length (escapeHtml (js ''```js\<newline>a<b\<newline>``` and ''))) \<and>
   includesStr
     (formatResponse (js ''```js\<newline>a<b\<newline>``` and '' @ js ''```'' @ js ''py'' @ js ''\<newline>''
        @ js ''b\<newline>'' @ js ''```'' @ []))
     (js ''<pre><code class=\"language-py\">b</code></pre>'')"
proof -
  let ?code = "js ''  if a < b && c * 2 > `d:\<newline>''"
  have lang: "list_all isWordChar (js ''py'')"
    and first: "\<not> includesStr (js ''See: '') (js ''```'')"
    and closing: "\<not> includesStr (?code @ js ''``'') (js ''```'')"
    and line: "list_all (\<lambda>c. \<not> isLineTerminator c) (trim (escapeHtml ?code))"
    and inside: "0x60 \<in> set ?code" "0x2A \<in> set ?code"
    and tick: "0x60 \<notin> set (js ''See: '' @ js '' done'')"
    and span: "\<not> matchesIn inlineCodeRe (trim (escapeHtml ?code))"
    and star: "0x2A \<notin> set (js ''See: '' @ js '' done'')"
    and pair: "\<not> matchesIn (emphasisRe (js ''*'')) (trim (escapeHtml ?code))"
    and body: "trim (escapeHtml ?code) = js ''if a &lt; b &amp;&amp; c * 2 &gt; `d:''"
    by code_simp+
  have first': "\<not> includesStr (js ''# *T* `q` '') (js ''```'')"
    and closing': "\<not> includesStr (js ''x<y>\<newline>'' @ js ''``'') (js ''```'')"
    and free: "0x60 \<notin> set (js ''x<y>\<newline>'')" "0x2A \<notin> set (js ''x<y>\<newline>'')"
    and line': "list_all (\<lambda>c. \<not> isLineTerminator c) (trim (escapeHtml (js ''x<y>\<newline>'')))"
    and body': "trim (escapeHtml (js ''x<y>\<newline>'')) = js ''x&lt;y&gt;''"
    by code_simp+
  from fenced_block_kept [of "js ''py''" "js ''See: ''" ?code "js '' done''"]
    lang first closing line tick span star pair
  have "includesStr
     (formatResponse (js ''See: '' @ js ''```'' @ js ''py'' @ js ''\<newline>'' @ ?code @ js ''```''
        @ js '' done''))
     (js ''<pre><code class=\"language-py\">if a &lt; b &amp;&amp; c * 2 &gt; `d:</code></pre>'')"
    unfolding body by (simp add: list_all_iff js_def)
  moreover
  from fenced_block_kept [of "[]" "js ''# *T* `q` ''" "js ''x<y>\<newline>''" "js '' and *more* `code`''"]
    first' closing' line' free
  have "includesStr
     (formatResponse (js ''# *T* `q` '' @ js ''```'' @ [] @ js ''\<newline>''
        @ js ''x<y>\<newline>'' @ js ''```'' @ js '' and *more* `code`''))
     (js ''<pre><code class=\"language-text\">x&lt;y&gt;</code></pre>'')"
    unfolding body' by (simp add: list_all_iff js_def)
  moreover
  have reach: "reaches codeBlockRe None
     (escapeHtml (js ''```js\<newline>a<b\<newline>``` and '' @ js ''```'' @ js ''py'' @ js ''\<newline>''
        @ js ''b\<newline>'' @ js ''```'' @ []))
     (length (escapeHtml (js ''```js\<newline>a<b\<newline>``` and '')))"
    and closing'': "\<not> includesStr (js ''b\<newline>'' @ js ''``'') (js ''```'')"
    and free'': "0x60 \<notin> set (js ''b\<newline>'')" "0x2A \<notin> set (js ''b\<newline>'')"
    and line'': "list_all (\<lambda>c. \<not> isLineTerminator c) (trim (escapeHtml (js ''b\<newline>'')))"
    and body'': "trim (escapeHtml (js ''b\<newline>'')) = js ''b''"
    by code_simp+
  from fenced_block_kept [of "js ''py''" "js ''```js\<newline>a<b\<newline>``` and ''" "js ''b\<newline>''" "[]"]
    lang reach closing'' line'' free''
  have "includesStr
     (formatResponse (js ''```js\<newline>a<b\<newline>``` and '' @ js ''```'' @ js ''py'' @ js ''\<newline>''
        @ js ''b\<newline>'' @ js ''```'' @ []))
     (js ''<pre><code class=\"language-py\">b</code></pre>'')"
    unfolding body'' by (simp add: list_all_iff js_def)
  ultimately show ?thesis
    using lang first closing line inside tick span star pair first' free line' reach
    by (intro conjI)
qed

text \<open>
  C1, as stated, fails: the interior of a block is not protected from the other rules.
  Each of them rewrites what it matches there, so that the output does not hold the
  element with the body: the rule of emphasis, of inline code, of the line break, of the
  paragraph break, of a heading and of a list item. A delimiter before the block pairs
  with one inside it. And a fence that is open before the block takes the opening fence of
  the block for its closing one.
\<close>

theorem fenced_block_counterexample:
  "formatResponse (js ''```js\<newline>*a*\<newline>```'') =
     js ''<p><pre><code class=\"language-js\"><em>a</em></code></pre></p>'' \<and>
   \<not> includesStr (formatResponse (js ''```js\<newline>*a*\<newline>```''))
       (js ''<pre><code class=\"language-js\">*a*</code></pre>'') \<and>
   formatResponse (js ''```js\<newline>`a`\<newline>```'') =
     js ''<p><pre><code class=\"language-js\"><code>a</code></code></pre></p>'' \<and>
   \<not> includesStr (formatResponse (js ''```js\<newline>`a`\<newline>```''))
       (js ''<pre><code class=\"language-js\">`a`</code></pre>'') \<and>
   formatResponse (js ''```js\<newline>a\<newline>b\<newline>```'') =
     js ''<p><pre><code class=\"language-js\">a<br>b</code></pre></p>'' \<and>
   \<not> includesStr (formatResponse (js ''```js\<newline>a\<newline>b\<newline>```''))
       (js ''<pre><code class=\"language-js\">a\<newline>b</code></pre>'') \<and>
   formatResponse (js ''```js\<newline>a\<newline>\<newline>b\<newline>```'') =
     js ''<p><pre><code class=\"language-js\">a</p><p>b</code></pre></p>'' \<and>
   \<not> includesStr (formatResponse (js ''```js\<newline>a\<newline>\<newline>b\<newline>```''))
       (js ''<pre><code class=\"language-js\">a\<newline>\<newline>b</code></pre>'') \<and>
   formatResponse (js ''```js\<newline>a\<newline># h\<newline>```'') =
     js ''<p><pre><code class=\"language-js\">a<br><h2>h</code></pre></h2></p>'' \<and>
   \<not> includesStr (formatResponse (js ''```js\<newline>a\<newline># h\<newline>```''))
       (js ''<pre><code class=\"language-js\">a\<newline># h</code></pre>'') \<and>
   formatResponse (js ''```js\<newline>a\<newline>- b\<newline>```'') =
     js ''<p><pre><code class=\"language-js\">a<br><ul><li>b</code></pre></li></ul>'' \<and>
   \<not> includesStr (formatResponse (js ''```js\<newline>a\<newline>- b\<newline>```''))
       (js ''<pre><code class=\"language-js\">a\<newline>- b</code></pre>'') \<and>
   formatResponse (js ''*x ```js\<newline>b*c\<newline>```'') =
     js ''<p><em>x <pre><code class=\"language-js\">b</em>c</code></pre></p>'' \<and>
   \<not> includesStr (formatResponse (js ''*x ```js\<newline>b*c\<newline>```''))
       (js ''<pre><code class=\"language-js\">b*c</code></pre>'') \<and>
   formatResponse (js ''`x ```js\<newline>b`c\<newline>```'') =
     js ''<p><code>x <pre><code class=\"language-js\">b</code>c</code></pre></p>'' \<and>
   \<not> includesStr (formatResponse (js ''`x ```js\<newline>b`c\<newline>```''))
       (js ''<pre><code class=\"language-js\">b`c</code></pre>'') \<and>
   formatResponse (js ''```\<newline>a ```js\<newline>x\<newline>```'') =
     js ''<p><pre><code class=\"language-text\">a</code></pre>js<br>x<br>```</p>'' \<and>
   \<not> includesStr (formatResponse (js ''```\<newline>a ```js\<newline>x\<newline>```''))
       (js ''<pre><code class=\"language-js\">x</code></pre>'')"
proof -
  have e1: "formatResponse (js ''```js\<newline>*a*\<newline>```'') =
      js ''<p><pre><code class=\"language-js\"><em>a</em></code></pre></p>''"
    by code_simp
  have n1: "\<not> includesStr (formatResponse (js ''```js\<newline>*a*\<newline>```''))
      (js ''<pre><code class=\"language-js\">*a*</code></pre>'')"
    unfolding e1 by code_simp
  have e2: "formatResponse (js ''```js\<newline>`a`\<newline>```'') =
      js ''<p><pre><code class=\"language-js\"><code>a</code></code></pre></p>''"
    by code_simp
  have n2: "\<not> includesStr (formatResponse (js ''```js\<newline>`a`\<newline>```''))
      (js ''<pre><code class=\"language-js\">`a`</code></pre>'')"
    unfolding e2 by code_simp
  have e3: "formatResponse (js ''```js\<newline>a\<newline>b\<newline>```'') =
      js ''<p><pre><code class=\"language-js\">a<br>b</code></pre></p>''"
    by code_simp
  have n3: "\<not> includesStr (formatResponse (js ''```js\<newline>a\<newline>b\<newline>```''))
      (js ''<pre><code class=\"language-js\">a\<newline>b</code></pre>'')"
    unfolding e3 by code_simp
  have e4: "formatResponse (js ''```js\<newline>a\<newline>\<newline>b\<newline>```'') =
      js ''<p><pre><code class=\"language-js\">a</p><p>b</code></pre></p>''"
    by code_simp
  have n4: "\<not> includesStr (formatResponse (js ''```js\<newline>a\<newline>\<newline>b\<newline>```''))
      (js ''<pre><code class=\"language-js\">a\<newline>\<newline>b</code></pre>'')"
    unfolding e4 by code_simp
  have e5: "formatResponse (js ''```js\<newline>a\<newline># h\<newline>```'') =
      js ''<p><pre><code class=\"language-js\">a<br><h2>h</code></pre></h2></p>''"
    by code_simp
  have n5: "\<not> includesStr (formatResponse (js ''```js\<newline>a\<newline># h\<newline>```''))
      (js ''<pre><code class=\"language-js\">a\<newline># h</code></pre>'')"
    unfolding e5 by code_simp
  have e6: "formatResponse (js ''```js\<newline>a\<newline>- b\<newline>```'') =
      js ''<p><pre><code class=\"language-js\">a<br><ul><li>b</code></pre></li></ul>''"
    by code_simp
  have n6: "\<not> includesStr (formatResponse (js ''```js\<newline>a\<newline>- b\<newline>```''))
      (js ''<pre><code class=\"language-js\">a\<newline>- b</code></pre>'')"
    unfolding e6 by code_simp
  have e7: "formatResponse (js ''*x ```js\<newline>b*c\<newline>```'') =
      js ''<p><em>x <pre><code class=\"language-js\">b</em>c</code></pre></p>''"
    by code_simp
  have n7: "\<not> includesStr (formatResponse (js ''*x ```js\<newline>b*c\<newline>```''))
      (js ''<pre><code class=\"language-js\">b*c</code></pre>'')"
    unfolding e7 by code_simp
  have e8: "formatResponse (js ''`x ```js\<newline>b`c\<newline>```'') =
      js ''<p><code>x <pre><code class=\"language-js\">b</code>c</code></pre></p>''"
    by code_simp
  have n8: "\<not> includesStr (formatResponse (js ''`x ```js\<newline>b`c\<newline>```''))
      (js ''<pre><code class=\"language-js\">b`c</code></pre>'')"
    unfolding e8 by code_simp
  have e9: "formatResponse (js ''```\<newline>a ```js\<newline>x\<newline>```'') =
      js ''<p><pre><code class=\"language-text\">a</code></pre>js<br>x<br>```</p>''"
    by code_simp
  have n9: "\<not> includesStr (formatResponse (js ''```\<newline>a ```js\<newline>x\<newline>```''))
      (js ''<pre><code class=\"language-js\">x</code></pre>'')"
    unfolding e9 by code_simp
  from e1 n1 e2 n2 e3 n3 e4 n4 e5 n5 e6 n6 e7 n7 e8 n8 e9 n9 show ?thesis
    by (intro conjI)
qed

text \<open>
  C9. The escaping is the first thing done to a text that is not empty, and everything
  else works on its result. It replaces each \<^verbatim>\<open>&\<close>, \<^verbatim>\<open><\<close> and \<^verbatim>\<open>>\<close> of the input, one by
  one and once, by its entity. For every input, each \<^verbatim>\<open><\<close> of the output then opens a tag
  of the program, each \<^verbatim>\<open>>\<close> closes one, and each \<^verbatim>\<open>&\<close> opens one of the three entities.
  So no output contains \<^verbatim>\<open><script>\<close>, and the output for \<^verbatim>\<open><script>\<close> contains
  \<^verbatim>\<open>&lt;script&gt;\<close>.
\<close>

theorem escape_before_markup:
  "escapeHtml input = concat (map escapeChar input) \<and>
   formatResponse input = (if input = [] then [] else markup (concat (map escapeChar input))) \<and>
   (\<forall>u v. formatResponse input = u @ 0x3C # v \<longrightarrow> (\<exists>t r. isTag t \<and> 0x3C # v = t @ r)) \<and>
   (\<forall>u v. formatResponse input = u @ 0x3E # v \<longrightarrow> (\<exists>r t. isTag t \<and> u @ [0x3E] = r @ t)) \<and>
   (\<forall>u v. formatResponse input = u @ 0x26 # v \<longrightarrow>
      (\<exists>e r. e \<in> set entities \<and> 0x26 # v = e @ r)) \<and>
   \<not> includesStr (formatResponse input) (js ''<script>'') \<and>
   formatResponse (js ''<script>'') = js ''<p>&lt;script&gt;</p>'' \<and>
   includesStr (formatResponse (js ''<script>'')) (js ''&lt;script&gt;'')"
proof -
  have wt: "wellTagged (formatResponse input)"
    by (rule wt_formatResponse)
  have "\<exists>t r. isTag t \<and> 0x3C # v = t @ r" if "formatResponse input = u @ 0x3C # v" for u v
    using wt that wt_lt [of u v] by simp
  moreover
  have "\<exists>r t. isTag t \<and> u @ [0x3E] = r @ t" if "formatResponse input = u @ 0x3E # v" for u v
    using wt that wt_gt [of u v] by simp
  moreover
  have "\<exists>e r. e \<in> set entities \<and> 0x26 # v = e @ r" if "formatResponse input = u @ 0x26 # v"
    for u v
    using wt that wt_amp [of u v] by simp
  moreover
  have "formatResponse (js ''<script>'') = js ''<p>&lt;script&gt;</p>''"
    and "includesStr (formatResponse (js ''<script>'')) (js ''&lt;script&gt;'')"
    by code_simp+
  moreover
  have "formatResponse input = (if input = [] then [] else markup (concat (map escapeChar input)))"
    by (simp add: formatResponse_def escapeHtml_chars)
  moreover
  have "\<not> includesStr (formatResponse input) (js ''<script>'')"
    using wt by (rule wt_no_script)
  ultimately show ?thesis
    using escapeHtml_chars [of input] by (intro conjI allI impI)
qed

theorem escape_before_markup_witness:
  "formatResponse (js ''<script>'') = [] @ 0x3C # js ''p>&lt;script&gt;</p>'' \<and>
   (\<exists>t r. isTag t \<and> 0x3C # js ''p>&lt;script&gt;</p>'' = t @ r) \<and>
   formatResponse (js ''<script>'') = js ''<p'' @ 0x3E # js ''&lt;script&gt;</p>'' \<and>
   (\<exists>r t. isTag t \<and> js ''<p'' @ [0x3E] = r @ t) \<and>
   formatResponse (js ''<script>'') = js ''<p>'' @ 0x26 # js ''lt;script&gt;</p>'' \<and>
   (\<exists>e r. e \<in> set entities \<and> 0x26 # js ''lt;script&gt;</p>'' = e @ r)"
proof -
  have lt: "formatResponse (js ''<script>'') = [] @ 0x3C # js ''p>&lt;script&gt;</p>''"
    and gt: "formatResponse (js ''<script>'') = js ''<p'' @ 0x3E # js ''&lt;script&gt;</p>''"
    and amp: "formatResponse (js ''<script>'') = js ''<p>'' @ 0x26 # js ''lt;script&gt;</p>''"
    by code_simp+
  from escape_before_markup [of "js ''<script>''"] lt gt amp show ?thesis
    by blast
qed

end
